theory Spec2Isabelle
  imports Main "HOL-Library.AList" "HOL-Library.Sublist"
begin

section \<open>Python values used by the choice-model interfaces\<close>

text \<open>
  Strings are lists of characters, one \<^typ>\<open>char\<close> per code point (code points below
  256). Exceptions are values of \<open>error\<close>; a function that can raise returns
  \<open>error + 'a\<close> with \<open>Inl\<close> for the exception.
\<close>

datatype error = TypeError | KeyError | IndexError | ValueError | AttributeError | NotEstimated

text \<open>
  Classes are compared by identity. \<open>ChoiceModel\<close> and \<open>MultinomialLogit\<close> are the two
  model classes the interfaces name; \<open>Subclass name base\<close> is a class declared elsewhere
  as \<^verbatim>\<open>class name(base)\<close>, \<open>Object\<close> is the root.
\<close>

datatype pyclass = Object | ChoiceModel | MultinomialLogit | Subclass string pyclass

fun base_class :: "pyclass \<Rightarrow> pyclass option" where
  "base_class Object = None"
| "base_class ChoiceModel = Some Object"
| "base_class MultinomialLogit = Some ChoiceModel"
| "base_class (Subclass n b) = Some b"



subsection \<open>The model object\<close>

text \<open>
  The attributes of a model that \<^verbatim>\<open>alogit.py\<close> reads. A dictionary is an association
  list in insertion order; \<open>data_columns\<close> is \<^verbatim>\<open>model.data.columns\<close>.
  \<open>py_type\<close> is the runtime class \<^verbatim>\<open>type(model)\<close>.
\<close>

record utility_term =
  parameter :: string
  variable :: string

record utility =
  intercept :: "string option"
  terms :: "utility_term list"

record choice_model =
  py_type :: pyclass
  title :: string
  alternatives :: "string list"
  choice_column :: string
  availability :: "(string \<times> string) list"
  alternative_independent_variables :: "string list"
  alternative_dependent_variables :: "(string \<times> (string \<times> string) list) list"
  intercepts :: "(string \<times> string) list"
  parameters :: "string list"
  utility_specification :: "(string \<times> utility) list"
  data_columns :: "string list"

definition dict_values :: "('k \<times> 'v) list \<Rightarrow> 'v list" where
  "dict_values d = map snd d"

definition dict_keys :: "('k \<times> 'v) list \<Rightarrow> 'k list" where
  "dict_keys d = map fst d"

definition dict_get :: "('k \<times> 'v) list \<Rightarrow> 'k \<Rightarrow> error + 'v" where
  "dict_get d k = (case map_of d k of None \<Rightarrow> Inl KeyError | Some v \<Rightarrow> Inr v)"

text \<open>\<^verbatim>\<open>dict(pairs)\<close>: a later pair replaces the value of an equal earlier key.\<close>

definition dict_of :: "('k \<times> 'v) list \<Rightarrow> ('k \<times> 'v) list" where
  "dict_of ps = fold (\<lambda>(k, v) d. AList.update k v d) ps []"

text \<open>
  Modelled from the spec: the methods \<^verbatim>\<open>all_variables\<close>,
  \<^verbatim>\<open>alternative_dependent_variable_fields\<close> and \<^verbatim>\<open>number_of_parameters\<close> of the
  model class, whose file is not among the sources. The variables are the
  alternative-independent ones followed by the names of the alternative-dependent ones;
  the fields are the columns of the alternative-dependent variables; the number of
  parameters counts the parameters and, when asked, the intercepts.
\<close>

definition all_variables :: "choice_model \<Rightarrow> string list" where
  "all_variables m =
     alternative_independent_variables m @ dict_keys (alternative_dependent_variables m)"

definition alternative_dependent_variable_fields :: "choice_model \<Rightarrow> string list" where
  "alternative_dependent_variable_fields m =
     concat (map (\<lambda>mapping. dict_values mapping)
       (dict_values (alternative_dependent_variables m)))"

definition number_of_parameters :: "choice_model \<Rightarrow> bool \<Rightarrow> nat" where
  "number_of_parameters m include_intercepts =
     length (parameters m) +
       (if include_intercepts then length (dict_values (intercepts m)) else 0)"

section \<open>The base interface: \<^verbatim>\<open>interface.py\<close>\<close>

datatype interface_class = Interface | AlogitInterface

fun valid_models :: "interface_class \<Rightarrow> pyclass list" where
  "valid_models Interface = [ChoiceModel]"
| "valid_models AlogitInterface = [MultinomialLogit]"

definition ensure_valid_model :: "interface_class \<Rightarrow> choice_model \<Rightarrow> error + unit" where
  "ensure_valid_model cls m =
     (if py_type m \<notin> set (valid_models cls) then Inl TypeError else Inr ())"

text \<open>\<^verbatim>\<open>Interface.__init__\<close>: validates, then stores the model.\<close>

definition Interface_init :: "interface_class \<Rightarrow> choice_model \<Rightarrow> error + choice_model" where
  "Interface_init cls m =
     (case ensure_valid_model cls m of Inl e \<Rightarrow> Inl e | Inr u \<Rightarrow> Inr m)"

section \<open>Python string operations\<close>

fun digit_char :: "nat \<Rightarrow> char" where
  "digit_char d =
     (if d = 0 then CHR ''0'' else if d = 1 then CHR ''1'' else if d = 2 then CHR ''2''
      else if d = 3 then CHR ''3'' else if d = 4 then CHR ''4'' else if d = 5 then CHR ''5''
      else if d = 6 then CHR ''6'' else if d = 7 then CHR ''7'' else if d = 8 then CHR ''8''
      else CHR ''9'')"

text \<open>\<^verbatim>\<open>str(n)\<close> for a non-negative integer: its decimal digits.\<close>

fun str_nat :: "nat \<Rightarrow> string" where
  "str_nat n = (if n < 10 then [digit_char n] else str_nat (n div 10) @ [digit_char (n mod 10)])"

declare str_nat.simps [simp del]

definition isdigit :: "char \<Rightarrow> bool" where
  "isdigit c = (c \<in> set ''0123456789'')"

text \<open>
  \<^verbatim>\<open>str.isspace\<close> on one character, for code points below 256: the characters
  \<^verbatim>\<open>str.split()\<close> and \<^verbatim>\<open>str.strip()\<close> treat as whitespace.
\<close>

definition isspace :: "char \<Rightarrow> bool" where
  "isspace c =
     (let n = (of_char c :: nat)
      in (9 \<le> n \<and> n \<le> 13) \<or> (28 \<le> n \<and> n \<le> 32) \<or> n = 133 \<or> n = 160)"

text \<open>\<^verbatim>\<open>s.split()\<close>: the maximal runs of characters that are not whitespace.\<close>

fun split_acc :: "string \<Rightarrow> string \<Rightarrow> string list" where
  "split_acc w [] = (if w = [] then [] else [w])"
| "split_acc w (c # cs) =
     (if isspace c then (if w = [] then split_acc [] cs else w # split_acc [] cs)
      else split_acc (w @ [c]) cs)"

definition py_split :: "string \<Rightarrow> string list" where
  "py_split s = split_acc [] s"

text \<open>\<^verbatim>\<open>s.strip() == ''\<close>.\<close>

definition strip_is_empty :: "string \<Rightarrow> bool" where
  "strip_is_empty s = list_all isspace s"

text \<open>\<^verbatim>\<open>sub in s\<close> for strings.\<close>

fun contains :: "string \<Rightarrow> string \<Rightarrow> bool" where
  "contains sub [] = (sub = [])"
| "contains sub (c # cs) = (prefix sub (c # cs) \<or> contains sub cs)"

text \<open>\<^verbatim>\<open>sep.join(xs)\<close>.\<close>

fun join :: "string \<Rightarrow> string list \<Rightarrow> string" where
  "join sep [] = []"
| "join sep [x] = x"
| "join sep (x # y # ys) = x @ sep @ join sep (y # ys)"

section \<open>The ALOGIT interface: \<^verbatim>\<open>alogit.py\<close>\<close>

definition ALO_COMMAND_TITLE :: string where "ALO_COMMAND_TITLE = ''$title ''"
definition ALO_COMMAND_ESTIMATE :: string where "ALO_COMMAND_ESTIMATE = ''$estimate''"
definition ALO_COMMAND_COEFFICIENTS :: string where "ALO_COMMAND_COEFFICIENTS = ''$coeff''"
definition ALO_COMMAND_ALTERNATIVES :: string where "ALO_COMMAND_ALTERNATIVES = ''$nest root()''"
definition ALO_COMMAND_ARRAY :: string where "ALO_COMMAND_ARRAY = ''$array''"

definition ALO_LABEL_CHOICE :: string where "ALO_LABEL_CHOICE = ''ch''"
definition ALO_LABEL_CHOICE_COLUMN :: string where "ALO_LABEL_CHOICE_COLUMN = ''alt''"
definition ALO_LABEL_AVAILABILITY :: string where "ALO_LABEL_AVAILABILITY = ''av''"
definition ALO_LABEL_VARIABLE :: string where "ALO_LABEL_VARIABLE = ''v''"
definition ALO_LABEL_CHOICE_DEPENDENT_VARIABLE :: string where
  "ALO_LABEL_CHOICE_DEPENDENT_VARIABLE = ''cv''"
definition ALO_LABEL_INTERCEPT :: string where "ALO_LABEL_INTERCEPT = ''c''"
definition ALO_LABEL_PARAMETER :: string where "ALO_LABEL_PARAMETER = ''prm''"

definition MAX_CHARACTER_LENGTH :: nat where "MAX_CHARACTER_LENGTH = 10"
definition MAX_LINE_LENGTH :: nat where "MAX_LINE_LENGTH = 77"

lemmas alo_labels =
  ALO_LABEL_CHOICE_def ALO_LABEL_CHOICE_COLUMN_def ALO_LABEL_AVAILABILITY_def
  ALO_LABEL_VARIABLE_def ALO_LABEL_CHOICE_DEPENDENT_VARIABLE_def ALO_LABEL_INTERCEPT_def
  ALO_LABEL_PARAMETER_def

lemmas alo_commands =
  ALO_COMMAND_TITLE_def ALO_COMMAND_ESTIMATE_def ALO_COMMAND_COEFFICIENTS_def
  ALO_COMMAND_ALTERNATIVES_def ALO_COMMAND_ARRAY_def

subsection \<open>The abbreviation registry\<close>

text \<open>
  One loop of \<^verbatim>\<open>_create_abbreviations\<close>: for every \<^verbatim>\<open>(number, name)\<close> of the
  enumeration, the name is appended to \<^verbatim>\<open>full\<close> and the label followed by the number to
  \<^verbatim>\<open>abbreviations\<close>.
\<close>

fun register_all ::
  "string \<Rightarrow> (nat \<times> string) list \<Rightarrow> string list \<times> string list \<Rightarrow> string list \<times> string list"
where
  "register_all label [] (full, abbreviations) = (full, abbreviations)"
| "register_all label ((number, name) # rest) (full, abbreviations) =
     register_all label rest (full @ [name], abbreviations @ [label @ str_nat number])"

text \<open>The two lists \<^verbatim>\<open>full\<close> and \<^verbatim>\<open>abbreviations\<close> at the end of the method.\<close>

definition registered :: "choice_model \<Rightarrow> string list \<times> string list" where
  "registered m =
     (let r = ([], []);
          r = register_all ALO_LABEL_CHOICE (enumerate 1 (alternatives m)) r;
          r = (fst r @ [choice_column m], snd r @ [ALO_LABEL_CHOICE_COLUMN]);
          r = register_all ALO_LABEL_AVAILABILITY
                (enumerate 1 (dict_values (availability m))) r;
          r = register_all ALO_LABEL_VARIABLE (enumerate 1 (all_variables m)) r;
          r = register_all ALO_LABEL_CHOICE_DEPENDENT_VARIABLE
                (enumerate 1 (alternative_dependent_variable_fields m)) r;
          r = register_all ALO_LABEL_INTERCEPT (enumerate 1 (dict_values (intercepts m))) r;
          r = register_all ALO_LABEL_PARAMETER (enumerate 1 (parameters m)) r
      in r)"

definition full_names :: "choice_model \<Rightarrow> string list" where
  "full_names m = fst (registered m)"

definition abbreviations :: "choice_model \<Rightarrow> string list" where
  "abbreviations m = snd (registered m)"

text \<open>
  The two dictionaries \<^verbatim>\<open>self.abbreviation\<close> and \<^verbatim>\<open>self.elongation\<close> of an interface.
\<close>

record registry =
  abbreviation_dict :: "(string \<times> string) list"
  elongation_dict :: "(string \<times> string) list"

definition create_abbreviations :: "choice_model \<Rightarrow> registry" where
  "create_abbreviations m =
     \<lparr> abbreviation_dict = dict_of (zip (full_names m) (abbreviations m)),
       elongation_dict = dict_of (zip (abbreviations m) (full_names m)) \<rparr>"

definition abbreviate :: "'a registry_scheme \<Rightarrow> string \<Rightarrow> string" where
  "abbreviate r s = (case map_of (abbreviation_dict r) s of Some a \<Rightarrow> a | None \<Rightarrow> s)"

definition elongate :: "'a registry_scheme \<Rightarrow> string \<Rightarrow> error + string" where
  "elongate r s = dict_get (elongation_dict r) s"

subsection \<open>\<^verbatim>\<open>textwrap.wrap\<close> with \<^verbatim>\<open>break_long_words=False\<close>\<close>

text \<open>
  The standard library's wrapper with its default options but
  \<^verbatim>\<open>break_long_words=False\<close>: tabs are expanded and whitespace turned into spaces, the
  text is split into chunks by the regular expression \<^verbatim>\<open>wordsep_re\<close>, and the chunks
  are packed greedily into lines. The character classes are those of the regular
  expression engine on code points below 256.
\<close>

definition re_whitespace :: "char \<Rightarrow> bool" where
  "re_whitespace c = (let n = (of_char c :: nat) in (9 \<le> n \<and> n \<le> 13) \<or> n = 32)"

definition re_digit :: "char \<Rightarrow> bool" where
  "re_digit c = (let n = (of_char c :: nat) in 48 \<le> n \<and> n \<le> 57)"

definition re_word :: "char \<Rightarrow> bool" where
  "re_word c =
     (let n = (of_char c :: nat)
      in (48 \<le> n \<and> n \<le> 57) \<or> (65 \<le> n \<and> n \<le> 90) \<or> n = 95 \<or> (97 \<le> n \<and> n \<le> 122) \<or>
         n = 170 \<or> n = 178 \<or> n = 179 \<or> n = 181 \<or> n = 185 \<or> n = 186 \<or>
         (188 \<le> n \<and> n \<le> 190) \<or> (192 \<le> n \<and> n \<le> 214) \<or> (216 \<le> n \<and> n \<le> 246) \<or>
         248 \<le> n)"

definition re_letter :: "char \<Rightarrow> bool" where
  "re_letter c = (re_word c \<and> \<not> re_digit c)"

definition re_word_punct :: "char \<Rightarrow> bool" where
  "re_word_punct c =
     (re_word c \<or> c \<in> set [CHR ''!'', CHR 0x22, CHR 0x27, CHR ''&'', CHR ''.'', CHR '','', CHR ''?''])"

text \<open>\<^verbatim>\<open>text.expandtabs(8)\<close>, from the column \<open>col\<close>.\<close>

fun expandtabs :: "nat \<Rightarrow> string \<Rightarrow> string" where
  "expandtabs col [] = []"
| "expandtabs col (c # cs) =
     (if c = CHR 0x09
      then replicate (8 - col mod 8) (CHR '' '') @ expandtabs (col + (8 - col mod 8)) cs
      else c # expandtabs (if c = CHR 0x0A \<or> c = CHR 0x0D then 0 else col + 1) cs)"

definition munge_whitespace :: "string \<Rightarrow> string" where
  "munge_whitespace text =
     map (\<lambda>c. if re_whitespace c then CHR '' '' else c) (expandtabs 0 text)"

text \<open>The lookahead \<^verbatim>\<open>(?=-{2,}\w)\<close>: two or more hyphens, then a word character.\<close>

definition emdash_ahead :: "string \<Rightarrow> bool" where
  "emdash_ahead rest =
     (let n = length (takeWhile (\<lambda>c. c = CHR ''-'') rest)
      in 2 \<le> n \<and> (case drop n rest of [] \<Rightarrow> False | d # ds \<Rightarrow> re_word d))"

text \<open>
  The lookbehind \<^verbatim>\<open>(?<=[\w!"'&.,?])\<close>; \<open>behind\<close> is the text to the left of the position,
  nearest character first.
\<close>

definition word_punct_behind :: "string \<Rightarrow> bool" where
  "word_punct_behind behind = (case behind of [] \<Rightarrow> False | b # bs \<Rightarrow> re_word_punct b)"

text \<open>
  Two letters, or a letter, a hyphen and a letter: the text to the left of the hyphen of a
  hyphenated word (nearest character first), and the text to its right.
\<close>

definition letters_around :: "string \<Rightarrow> bool" where
  "letters_around s =
     (case s of
        a # b # bs \<Rightarrow>
          re_letter a \<and>
          (re_letter b \<or> (b = CHR ''-'' \<and> (case bs of [] \<Rightarrow> False | c # cs \<Rightarrow> re_letter c)))
      | _ \<Rightarrow> False)"

definition hyphen_break :: "string \<Rightarrow> string \<Rightarrow> bool" where
  "hyphen_break behind rest =
     (case rest of
        [] \<Rightarrow> False
      | h # after \<Rightarrow> h = CHR ''-'' \<and> letters_around behind \<and> letters_around after)"

text \<open>
  The lazy scan of a word: how many more characters the match takes, after the
  characters already taken (the head of \<open>behind\<close>). It ends after a hyphen that
  breaks a hyphenated word, in front of whitespace or at the end of the text, or in
  front of an em-dash.
\<close>

fun word_end :: "string \<Rightarrow> string \<Rightarrow> nat" where
  "word_end behind [] = 0"
| "word_end behind (c # cs) =
     (if hyphen_break behind (c # cs) then 1
      else if re_whitespace c then 0
      else if word_punct_behind behind \<and> emdash_ahead (c # cs) then 0
      else Suc (word_end (c # behind) cs))"

text \<open>The match of \<^verbatim>\<open>wordsep_re\<close> starting with the character \<open>c\<close>: its length less one.\<close>

definition chunk_rest :: "string \<Rightarrow> char \<Rightarrow> string \<Rightarrow> nat" where
  "chunk_rest behind c cs =
     (if re_whitespace c then length (takeWhile re_whitespace cs)
      else if word_punct_behind behind \<and> emdash_ahead (c # cs)
        then length (takeWhile (\<lambda>x. x = CHR ''-'') cs)
      else word_end (c # behind) cs)"

fun split_chunks :: "string \<Rightarrow> string \<Rightarrow> string list" where
  "split_chunks behind [] = []"
| "split_chunks behind (c # cs) =
     (let k = chunk_rest behind c cs
      in (c # take k cs) # split_chunks (rev (take k cs) @ c # behind) (drop k cs))"

text \<open>The inner loop of \<^verbatim>\<open>_wrap_chunks\<close>: the chunks that fit on the current line.\<close>

fun take_fitting :: "nat \<Rightarrow> nat \<Rightarrow> string list \<Rightarrow> string list \<times> string list" where
  "take_fitting width cur_len [] = ([], [])"
| "take_fitting width cur_len (c # cs) =
     (if cur_len + length c \<le> width
      then (let (cur_line, chunks) = take_fitting width (cur_len + length c) cs
            in (c # cur_line, chunks))
      else ([], c # cs))"

text \<open>
  \<^verbatim>\<open>_handle_long_word\<close> without breaking long words: the long chunk goes on a line
  of its own.
\<close>

definition handle_long_word :: "string list \<Rightarrow> string list \<Rightarrow> string list \<times> string list" where
  "handle_long_word chunks cur_line =
     (if cur_line = [] then ([hd chunks], tl chunks) else (cur_line, chunks))"

text \<open>
  One turn of the outer loop of \<^verbatim>\<open>_wrap_chunks\<close>: the chunks of the next line and the
  chunks left. \<open>started\<close> says that \<^verbatim>\<open>lines\<close> is not empty.
\<close>

definition next_line :: "nat \<Rightarrow> bool \<Rightarrow> string list \<Rightarrow> string list \<times> string list" where
  "next_line width started chunks =
     (let chunks = (if strip_is_empty (hd chunks) \<and> started then tl chunks else chunks);
          (cur_line, chunks) = take_fitting width 0 chunks;
          (cur_line, chunks) =
            (if chunks \<noteq> [] \<and> length (hd chunks) > width
             then handle_long_word chunks cur_line else (cur_line, chunks));
          cur_line =
            (if cur_line \<noteq> [] \<and> strip_is_empty (last cur_line)
             then butlast cur_line else cur_line)
      in (cur_line, chunks))"

lemma take_fitting_rest: "take_fitting w n cs = (l, r) \<Longrightarrow> length r \<le> length cs"
  by (induction cs arbitrary: n l r) (fastforce split: prod.splits if_splits)+

lemma take_fitting_length: "length (snd (take_fitting w n cs)) \<le> length cs"
  using take_fitting_rest [of w n cs] by (cases "take_fitting w n cs") simp

lemma next_line_decreases:
  assumes "chunks \<noteq> []"
  shows "length (snd (next_line w b chunks)) < length chunks"
proof -
  obtain c cs where chunks: "chunks = c # cs" using assms by (cases chunks) auto
  show ?thesis
  proof (cases "strip_is_empty c \<and> b")
    case True
    then show ?thesis
      using take_fitting_length [of w 0 cs]
      by (auto simp: next_line_def chunks handle_long_word_def Let_def split: prod.splits if_splits)
  next
    case False
    show ?thesis
    proof (cases "length c \<le> w")
      case True
      with False show ?thesis
        using take_fitting_length [of w "length c" cs]
        by (auto simp: next_line_def chunks handle_long_word_def Let_def split: prod.splits if_splits)
    next
      case long: False
      with False show ?thesis
        by (auto simp: next_line_def chunks handle_long_word_def Let_def split: prod.splits if_splits)
    qed
  qed
qed

text \<open>The outer loop of \<^verbatim>\<open>_wrap_chunks\<close>, with the lines made so far.\<close>

function wrap_chunks :: "nat \<Rightarrow> string list \<Rightarrow> string list \<Rightarrow> string list" where
  "wrap_chunks width lines chunks =
     (if chunks = [] then lines
      else (let (cur_line, rest) = next_line width (lines \<noteq> []) chunks
            in wrap_chunks width (if cur_line \<noteq> [] then lines @ [concat cur_line] else lines) rest))"
  by pat_completeness auto
termination
proof (relation "measure (\<lambda>(width, lines, chunks). length chunks)")
  show "wf (measure (\<lambda>(width, lines, chunks). length chunks))" by simp
next
  fix width :: nat and lines chunks :: "string list" and x cur_line rest
  assume "chunks \<noteq> []" and "x = next_line width (lines \<noteq> []) chunks" and "(cur_line, rest) = x"
  then have "rest = snd (next_line width (lines \<noteq> []) chunks)" by (metis snd_conv)
  then show "((width, if cur_line \<noteq> [] then lines @ [concat cur_line] else lines, rest),
      width, lines, chunks) \<in> measure (\<lambda>(width, lines, chunks). length chunks)"
    using next_line_decreases [OF \<open>chunks \<noteq> []\<close>] by simp
qed

declare wrap_chunks.simps [simp del]

text \<open>\<^verbatim>\<open>textwrap.wrap(text, width=_MAX_LINE_LENGTH, break_long_words=False)\<close>.\<close>

definition wrap :: "string \<Rightarrow> string list" where
  "wrap text = wrap_chunks MAX_LINE_LENGTH [] (split_chunks [] (munge_whitespace text))"

subsection \<open>The interface object\<close>

text \<open>
  \<^verbatim>\<open>subprocess.CompletedProcess\<close>, and the attributes of an \<^verbatim>\<open>AlogitInterface\<close>. An
  attribute that is set late is an option, \<open>None\<close> until it is assigned. The private
  attributes \<^verbatim>\<open>_estimated\<close>, \<^verbatim>\<open>_parameters\<close>, ... carry the prefix \<open>u_\<close>. The type
  \<open>'f\<close> is the type of floating point numbers.
\<close>

record completed_process =
  returncode :: int
  stdout :: string
  stderr :: string

record 'f alogit_interface = registry +
  model :: choice_model
  alogit_path :: string
  data_file :: string
  alo_file :: string
  column_labels :: "string list"
  alo :: "string list"
  u_estimated :: bool
  process :: "completed_process option"
  u_parameters :: "(string \<times> 'f) list option"
  u_errors :: "(string \<times> 'f) list option"
  u_t_values :: "(string \<times> 'f) list option"
  u_final_log_likelihood :: "'f option"
  u_null_log_likelihood :: "'f option"
  u_estimation_time :: "'f option"

subsection \<open>The ALOGIT input file\<close>

definition alo_record_string :: "'a registry_scheme \<Rightarrow> string \<Rightarrow> string list \<Rightarrow> string" where
  "alo_record_string self command args =
     fold (\<lambda>arg string. string @ '' '' @ abbreviate self arg) args command"

definition alo_record :: "'a registry_scheme \<Rightarrow> string \<Rightarrow> string list \<Rightarrow> string list" where
  "alo_record self command args = wrap (alo_record_string self command args)"

definition array :: "'a registry_scheme \<Rightarrow> string \<Rightarrow> string \<Rightarrow> string" where
  "array self arr argument = abbreviate self arr @ ''('' @ abbreviate self argument @ '')''"

definition array_record :: "'a registry_scheme \<Rightarrow> string \<Rightarrow> string \<Rightarrow> string" where
  "array_record self arr argument = array self arr argument @ '' =''"

definition specify_data_file_string :: "'f alogit_interface \<Rightarrow> string" where
  "specify_data_file_string self =
     ''file (name='' @ data_file self @ '') '' @ join '' '' (column_labels self)"

definition specify_data_file :: "'f alogit_interface \<Rightarrow> string list" where
  "specify_data_file self = wrap (specify_data_file_string self)"

definition define_alternatives_string :: "'f alogit_interface \<Rightarrow> string" where
  "define_alternatives_string self =
     ''choice=recode('' @ ALO_LABEL_CHOICE_COLUMN @ '' '' @
       join '', '' (map (abbreviate self) (alternatives (model self))) @ '')''"

definition define_alternatives :: "'f alogit_interface \<Rightarrow> string list" where
  "define_alternatives self = wrap (define_alternatives_string self)"

text \<open>One term of a utility: \<^verbatim>\<open>parameter*variable\<close>, or \<^verbatim>\<open>parameter*variable(choice)\<close>.\<close>

definition utility_term_string :: "'f alogit_interface \<Rightarrow> string \<Rightarrow> utility_term \<Rightarrow> string" where
  "utility_term_string self choice t =
     (if variable t \<in> set (dict_keys (alternative_dependent_variables (model self)))
      then abbreviate self (parameter t) @ ''*'' @ abbreviate self (variable t) @ ''('' @
             abbreviate self choice @ '')''
      else abbreviate self (parameter t) @ ''*'' @ abbreviate self (variable t))"

definition utility_string :: "'f alogit_interface \<Rightarrow> string \<Rightarrow> error + string" where
  "utility_string self choice =
     (case dict_get (utility_specification (model self)) choice of
        Inl e \<Rightarrow> Inl e
      | Inr u \<Rightarrow>
          (let utility_string =
                 (case intercept u of Some i \<Rightarrow> [abbreviate self i] | None \<Rightarrow> []);
               utility_string = utility_string @ map (utility_term_string self choice) (terms u)
           in Inr (join '' + '' utility_string)))"

text \<open>The loop over the alternatives that writes the availability records.\<close>

fun availability_records :: "'f alogit_interface \<Rightarrow> string list \<Rightarrow> error + string list" where
  "availability_records self [] = Inr []"
| "availability_records self (choice # choices) =
     (case dict_get (availability (model self)) choice of
        Inl e \<Rightarrow> Inl e
      | Inr column \<Rightarrow>
          (case availability_records self choices of
             Inl e \<Rightarrow> Inl e
           | Inr rest \<Rightarrow> Inr (alo_record self (array_record self ''Avail'' choice) [column] @ rest)))"

text \<open>The loop over the alternative-dependent variables, and its inner loop.\<close>

definition variable_records ::
  "'f alogit_interface \<Rightarrow> string \<times> (string \<times> string) list \<Rightarrow> string list" where
  "variable_records self item =
     (case item of (var, mapping) \<Rightarrow>
        alo_record self ALO_COMMAND_ARRAY [array self var ''alts''] @
        concat (map (\<lambda>(choice, column_label).
          alo_record self (array_record self var choice) [column_label]) mapping))"

text \<open>The loop over the alternatives that writes the utilities.\<close>

fun utility_records :: "'f alogit_interface \<Rightarrow> string list \<Rightarrow> error + string list" where
  "utility_records self [] = Inr []"
| "utility_records self (choice # choices) =
     (case utility_string self choice of
        Inl e \<Rightarrow> Inl e
      | Inr u \<Rightarrow>
          (case utility_records self choices of
             Inl e \<Rightarrow> Inl e
           | Inr rest \<Rightarrow> Inr (alo_record self (array_record self ''Util'' choice) [u] @ rest)))"

definition create_alo_file :: "'f alogit_interface \<Rightarrow> error + string list" where
  "create_alo_file self =
     (let m = model self;
          alo = [];
          alo = alo @ alo_record self ALO_COMMAND_TITLE [title m];
          alo = alo @ alo_record self ALO_COMMAND_ESTIMATE [];
          alo = alo @ alo_record self ALO_COMMAND_COEFFICIENTS
                        (parameters m @ dict_values (intercepts m));
          alo = alo @ alo_record self ALO_COMMAND_ALTERNATIVES (alternatives m);
          alo = alo @ specify_data_file self
      in case availability_records self (alternatives m) of
           Inl e \<Rightarrow> Inl e
         | Inr avail \<Rightarrow>
             (let alo = alo @ avail;
                  alo = alo @ define_alternatives self;
                  alo = alo @ concat (map (variable_records self)
                                        (alternative_dependent_variables m))
              in case utility_records self (alternatives m) of
                   Inl e \<Rightarrow> Inl e
                 | Inr utils \<Rightarrow> Inr (alo @ utils)))"

subsection \<open>The record sequence\<close>

text \<open>
  The records of the input file as the specification lists them, before wrapping, in
  the order the serializer writes them: title, estimation directive, coefficients
  (parameters, then intercepts), nest with the alternatives after \<^verbatim>\<open>root()\<close>, data file
  with the column labels, one availability record per alternative, the recoding of the
  choice column, per alternative-dependent variable its array declaration and one
  record per alternative, and one utility record per alternative. Every argument of a
  record goes through \<open>abbreviate\<close>, also \<^verbatim>\<open>Avail\<close>, \<^verbatim>\<open>Util\<close> and \<^verbatim>\<open>alts\<close>.
\<close>

definition utility_expression :: "'f alogit_interface \<Rightarrow> string \<Rightarrow> string" where
  "utility_expression self choice =
     (case map_of (utility_specification (model self)) choice of
        None \<Rightarrow> []
      | Some u \<Rightarrow>
          join '' + ''
            ((case intercept u of None \<Rightarrow> [] | Some i \<Rightarrow> [abbreviate self i]) @
             map (utility_term_string self choice) (terms u)))"

definition availability_record :: "'f alogit_interface \<Rightarrow> string \<Rightarrow> string" where
  "availability_record self choice =
     abbreviate self ''Avail'' @ ''('' @ abbreviate self choice @ '') = '' @
     abbreviate self
       (case map_of (availability (model self)) choice of None \<Rightarrow> [] | Some column \<Rightarrow> column)"

definition array_records ::
  "'f alogit_interface \<Rightarrow> string \<times> (string \<times> string) list \<Rightarrow> string list" where
  "array_records self item =
     (case item of (var, mapping) \<Rightarrow>
        (''$array '' @
           abbreviate self (abbreviate self var @ ''('' @ abbreviate self ''alts'' @ '')'')) #
        map (\<lambda>(choice, column).
          abbreviate self var @ ''('' @ abbreviate self choice @ '') = '' @
          abbreviate self column) mapping)"

definition utility_record :: "'f alogit_interface \<Rightarrow> string \<Rightarrow> string" where
  "utility_record self choice =
     abbreviate self ''Util'' @ ''('' @ abbreviate self choice @ '') = '' @
     abbreviate self (utility_expression self choice)"

definition alo_records :: "'f alogit_interface \<Rightarrow> string list" where
  "alo_records self =
     [''$title  '' @ abbreviate self (title (model self)),
      ''$estimate'',
      ''$coeff'' @ concat (map (\<lambda>name. '' '' @ abbreviate self name)
        (parameters (model self) @ dict_values (intercepts (model self)))),
      ''$nest root()'' @ concat (map (\<lambda>choice. '' '' @ abbreviate self choice)
        (alternatives (model self))),
      ''file (name='' @ data_file self @ '') '' @ join '' '' (column_labels self)] @
     map (availability_record self) (alternatives (model self)) @
     [''choice=recode(alt '' @
        join '', '' (map (abbreviate self) (alternatives (model self))) @ '')''] @
     concat (map (array_records self) (alternative_dependent_variables (model self))) @
     map (utility_record self) (alternatives (model self))"

subsection \<open>Construction\<close>

text \<open>
  The keyword arguments of \<^verbatim>\<open>AlogitInterface.__init__\<close>. \<open>abspath\<close> stands for
  \<^verbatim>\<open>os.path.abspath\<close>. A keyword that is given is a string, the attributes of the model
  have the types of the record \<open>choice_model\<close>, and the model carries its data table,
  whose columns the constructor reads.

  Modelled from the spec: the initial value \<open>False\<close> of the flag \<^verbatim>\<open>_estimated\<close>, which
  the base class of the sources does not set (the flag stays false until a successful
  \<^verbatim>\<open>estimate()\<close>).
\<close>

record init_kwargs =
  kw_alogit_path :: "string option"
  kw_data_file :: "string option"
  kw_alo_file :: "string option"

definition AlogitInterface_init ::
  "(string \<Rightarrow> string) \<Rightarrow> choice_model \<Rightarrow> init_kwargs \<Rightarrow> error + 'f alogit_interface" where
  "AlogitInterface_init abspath m kwargs =
     (case Interface_init AlogitInterface m of
        Inl e \<Rightarrow> Inl e
      | Inr m \<Rightarrow>
          (case kw_alogit_path kwargs of
             None \<Rightarrow> Inl KeyError
           | Some path \<Rightarrow>
               (let prefix = takeWhile (\<lambda>c. c \<noteq> CHR '' '') (title m);
                    r = create_abbreviations m;
                    self = \<lparr> abbreviation_dict = abbreviation_dict r,
                             elongation_dict = elongation_dict r,
                             model = m,
                             alogit_path = abspath path,
                             data_file = (case kw_data_file kwargs of
                                            Some f \<Rightarrow> f | None \<Rightarrow> prefix @ ''.csv''),
                             alo_file = (case kw_alo_file kwargs of
                                           Some f \<Rightarrow> f | None \<Rightarrow> prefix @ ''.alo''),
                             column_labels = map (abbreviate r) (data_columns m),
                             alo = [],
                             u_estimated = False,
                             process = None,
                             u_parameters = None,
                             u_errors = None,
                             u_t_values = None,
                             u_final_log_likelihood = None,
                             u_null_log_likelihood = None,
                             u_estimation_time = None \<rparr>
                in case create_alo_file self of
                     Inl e \<Rightarrow> Inl e
                   | Inr lines \<Rightarrow> Inr (self\<lparr>alo := lines\<rparr>))))"

subsection \<open>Reading the results\<close>

text \<open>\<^verbatim>\<open>xs[i]\<close> for a list and an integer index; a negative index counts from the end.\<close>

definition py_index :: "'a list \<Rightarrow> int \<Rightarrow> error + 'a" where
  "py_index xs i =
     (if 0 \<le> i \<and> i < int (length xs) then Inr (xs ! nat i)
      else if i < 0 \<and> - int (length xs) \<le> i then Inr (xs ! nat (int (length xs) + i))
      else Inl IndexError)"

text \<open>
  \<^verbatim>\<open>float(xs[i])\<close>: \<open>to_float\<close> stands for \<^verbatim>\<open>float\<close> on strings, \<open>None\<close> where it raises
  \<^verbatim>\<open>ValueError\<close>.
\<close>

definition float_at :: "(string \<Rightarrow> 'f option) \<Rightarrow> string list \<Rightarrow> int \<Rightarrow> error + 'f" where
  "float_at to_float xs i =
     (case py_index xs i of
        Inl e \<Rightarrow> Inl e
      | Inr s \<Rightarrow> (case to_float s of None \<Rightarrow> Inl ValueError | Some v \<Rightarrow> Inr v))"

text \<open>\<^verbatim>\<open>d[k] = v\<close> on a dictionary attribute.\<close>

definition dict_set :: "('k \<times> 'v) list option \<Rightarrow> 'k \<Rightarrow> 'v \<Rightarrow> ('k \<times> 'v) list option" where
  "dict_set d k v = Some (AList.update k v (case d of None \<Rightarrow> [] | Some al \<Rightarrow> al))"

definition coefficient_header :: string where
  "coefficient_header =
     ''Coefficient   Estimate   Std. Error '' @ [CHR 0x27] @ ''t'' @ [CHR 0x27] @ '' ratio''"

text \<open>
  The body of the inner loop of \<^verbatim>\<open>_parse_output_file\<close>, after the line is read and
  split: the first field is elongated, the next three are converted and stored one
  after the other. The result is the exception raised, if any, and the interface as it
  is then.
\<close>

definition store_result ::
  "(string \<Rightarrow> 'f option) \<Rightarrow> string list \<Rightarrow> 'f alogit_interface \<Rightarrow>
     error option \<times> 'f alogit_interface" where
  "store_result to_float result_line self =
     (case py_index result_line 0 of
        Inl e \<Rightarrow> (Some e, self)
      | Inr token \<Rightarrow>
     (case elongate self token of
        Inl e \<Rightarrow> (Some e, self)
      | Inr name \<Rightarrow>
     (case float_at to_float result_line 1 of
        Inl e \<Rightarrow> (Some e, self)
      | Inr v1 \<Rightarrow>
     (let self = self\<lparr>u_parameters := dict_set (u_parameters self) name v1\<rparr>
      in case float_at to_float result_line 2 of
        Inl e \<Rightarrow> (Some e, self)
      | Inr v2 \<Rightarrow>
     (let self = self\<lparr>u_errors := dict_set (u_errors self) name v2\<rparr>
      in case float_at to_float result_line 3 of
        Inl e \<Rightarrow> (Some e, self)
      | Inr v3 \<Rightarrow> (None, self\<lparr>u_t_values := dict_set (u_t_values self) name v3\<rparr>))))))"

text \<open>\<^verbatim>\<open>outfile.readline()\<close>: the next line, or the empty string at the end of the file.\<close>

definition readline :: "string list \<Rightarrow> string \<times> string list" where
  "readline lines = (case lines of [] \<Rightarrow> ([], []) | l # ls \<Rightarrow> (l, ls))"

text \<open>
  The inner loop: \<open>n\<close> times, one more line is read and stored. The result is the
  exception raised, if any, the interface as it is then, and the lines not yet read.
\<close>

fun read_results ::
  "(string \<Rightarrow> 'f option) \<Rightarrow> nat \<Rightarrow> string list \<Rightarrow> 'f alogit_interface \<Rightarrow>
     (error option \<times> 'f alogit_interface) \<times> string list" where
  "read_results to_float 0 lines self = ((None, self), lines)"
| "read_results to_float (Suc n) lines self =
     (case store_result to_float (py_split (fst (readline lines))) self of
        (Some e, self) \<Rightarrow> ((Some e, self), snd (readline lines))
      | (None, self) \<Rightarrow> read_results to_float n (snd (readline lines)) self)"

lemma read_results_rest: "length (snd (read_results to_float n lines self)) \<le> length lines"
proof (induction n arbitrary: lines self)
  case 0
  then show ?case by simp
next
  case (Suc n)
  have "length (snd (readline lines)) \<le> length lines"
    by (cases lines) (simp_all add: readline_def)
  then show ?case
    using Suc.IH [of "snd (readline lines)"]
    by (auto split: prod.splits option.splits intro: order_trans)
qed

text \<open>The loop over the lines of the log file.\<close>

function parse_lines ::
  "(string \<Rightarrow> 'f option) \<Rightarrow> string list \<Rightarrow> 'f alogit_interface \<Rightarrow>
     error option \<times> 'f alogit_interface" where
  "parse_lines to_float [] self = (None, self)"
| "parse_lines to_float (line # lines) self =
     (if contains ''Final value of Log Likelihood'' line then
        (case float_at to_float (py_split line) (- 1) of
           Inl e \<Rightarrow> (Some e, self)
         | Inr v \<Rightarrow> parse_lines to_float lines (self\<lparr>u_final_log_likelihood := Some v\<rparr>))
      else if contains ''Initial Log Likelihood'' line then
        (case float_at to_float (py_split line) (- 1) of
           Inl e \<Rightarrow> (Some e, self)
         | Inr v \<Rightarrow> parse_lines to_float lines (self\<lparr>u_null_log_likelihood := Some v\<rparr>))
      else if contains coefficient_header line then
        (case read_results to_float (number_of_parameters (model self) True) lines self of
           ((Some e, self), rest) \<Rightarrow> (Some e, self)
         | ((None, self), rest) \<Rightarrow> parse_lines to_float rest self)
      else if contains ''Estimation time'' line then
        (case float_at to_float (py_split line) (- 2) of
           Inl e \<Rightarrow> (Some e, self)
         | Inr v \<Rightarrow> parse_lines to_float lines (self\<lparr>u_estimation_time := Some v\<rparr>))
      else parse_lines to_float lines self)"
  by pat_completeness auto
termination
proof (relation "measure (\<lambda>(to_float, lines, self). length lines)", simp_all)
  fix to_float :: "string \<Rightarrow> 'f option" and lines y :: "string list"
    and self :: "'f alogit_interface" and x
  assume "(x, y) = read_results to_float (number_of_parameters (model self) True) lines self"
  then have "y = snd (read_results to_float (number_of_parameters (model self) True) lines self)"
    by (metis snd_conv)
  then show "length y < Suc (length lines)"
    using read_results_rest [of to_float "number_of_parameters (model self) True" lines self]
    by simp
qed

text \<open>
  \<^verbatim>\<open>_parse_output_file\<close>: the three dictionaries are emptied, then the lines of the log
  file are read. \<open>log\<close> is the content of the log file, line by line.
\<close>

definition parse_output_file ::
  "(string \<Rightarrow> 'f option) \<Rightarrow> string list \<Rightarrow> 'f alogit_interface \<Rightarrow>
     error option \<times> 'f alogit_interface" where
  "parse_output_file to_float log self =
     parse_lines to_float log
       (self\<lparr>u_parameters := Some [], u_errors := Some [], u_t_values := Some []\<rparr>)"

text \<open>
  \<^verbatim>\<open>estimate\<close>, from the return of \<^verbatim>\<open>subprocess.run\<close> on: \<open>proc\<close> is the completed
  process and \<open>log\<close> the log file the solver has written. An exception leaves the
  function at once; the interface keeps what was assigned until then.
\<close>

definition estimate ::
  "(string \<Rightarrow> 'f option) \<Rightarrow> completed_process \<Rightarrow> string list \<Rightarrow> 'f alogit_interface \<Rightarrow>
     error option \<times> 'f alogit_interface" where
  "estimate to_float proc log self =
     (if returncode proc = 0 then
        (case parse_output_file to_float log (self\<lparr>u_estimated := True\<rparr>) of
           (Some e, self) \<Rightarrow> (Some e, self)
         | (None, self) \<Rightarrow> (None, self\<lparr>process := Some proc\<rparr>))
      else (None, self\<lparr>process := Some proc\<rparr>))"

text \<open>
  Modelled from the spec: the decorator \<^verbatim>\<open>requires_estimation\<close>, imported from
  \<^verbatim>\<open>interface.py\<close> but not defined in the sources. A guarded method fails with the
  error "estimation has not been performed" unless the flag \<^verbatim>\<open>_estimated\<close> is true.
\<close>

definition requires_estimation ::
  "('f alogit_interface \<Rightarrow> error + 'a) \<Rightarrow> 'f alogit_interface \<Rightarrow> error + 'a" where
  "requires_estimation method self =
     (if u_estimated self then method self else Inl NotEstimated)"

definition attribute :: "'a option \<Rightarrow> error + 'a" where
  "attribute a = (case a of None \<Rightarrow> Inl AttributeError | Some v \<Rightarrow> Inr v)"

text \<open>\<^verbatim>\<open>display_results\<close>: the result is the list of the strings printed.\<close>

definition display_results :: "'f alogit_interface \<Rightarrow> error + string list" where
  "display_results =
     requires_estimation (\<lambda>self.
       case attribute (process self) of
         Inl e \<Rightarrow> Inl e
       | Inr p \<Rightarrow>
           if returncode p \<noteq> 0
           then Inr [''ALOGIT returned non-zero return code'', stderr p]
           else Inr [stdout p])"

definition null_log_likelihood :: "'f alogit_interface \<Rightarrow> error + 'f" where
  "null_log_likelihood = requires_estimation (\<lambda>self. attribute (u_null_log_likelihood self))"

definition final_log_likelihood :: "'f alogit_interface \<Rightarrow> error + 'f" where
  "final_log_likelihood = requires_estimation (\<lambda>self. attribute (u_final_log_likelihood self))"

definition result_parameters :: "'f alogit_interface \<Rightarrow> error + (string \<times> 'f) list" where
  "result_parameters = requires_estimation (\<lambda>self. attribute (u_parameters self))"

definition standard_errors :: "'f alogit_interface \<Rightarrow> error + (string \<times> 'f) list" where
  "standard_errors = requires_estimation (\<lambda>self. attribute (u_errors self))"

definition t_values :: "'f alogit_interface \<Rightarrow> error + (string \<times> 'f) list" where
  "t_values = requires_estimation (\<lambda>self. attribute (u_t_values self))"

definition estimation_time :: "'f alogit_interface \<Rightarrow> error + 'f" where
  "estimation_time = requires_estimation (\<lambda>self. attribute (u_estimation_time self))"

subsection \<open>The parser as a line scanner\<close>

text \<open>
  The parser the specification describes, written as a scanner with one counter: the
  number of coefficient rows still to be read (\<open>0\<close> when it is looking for a trigger).
  A row is stored without being looked at for triggers. Otherwise the triggers are
  tried in the order: final log-likelihood, initial log-likelihood, header of the
  coefficient table (the next \<open>K\<close> lines are rows), estimation time; the first that the
  line contains decides, and a line with none is ignored. The end of the log while rows
  are still to be read is an \<open>IndexError\<close>.
\<close>

fun scan_lines ::
  "(string \<Rightarrow> 'f option) \<Rightarrow> nat \<Rightarrow> nat \<Rightarrow> string list \<Rightarrow> 'f alogit_interface \<Rightarrow>
     error option \<times> 'f alogit_interface" where
  "scan_lines to_float K remaining [] self =
     (if remaining = 0 then (None, self) else (Some IndexError, self))"
| "scan_lines to_float K remaining (line # lines) self =
     (if 0 < remaining then
        (case store_result to_float (py_split line) self of
           (Some e, self) \<Rightarrow> (Some e, self)
         | (None, self) \<Rightarrow> scan_lines to_float K (remaining - 1) lines self)
      else if contains ''Final value of Log Likelihood'' line then
        (case float_at to_float (py_split line) (- 1) of
           Inl e \<Rightarrow> (Some e, self)
         | Inr v \<Rightarrow> scan_lines to_float K 0 lines (self\<lparr>u_final_log_likelihood := Some v\<rparr>))
      else if contains ''Initial Log Likelihood'' line then
        (case float_at to_float (py_split line) (- 1) of
           Inl e \<Rightarrow> (Some e, self)
         | Inr v \<Rightarrow> scan_lines to_float K 0 lines (self\<lparr>u_null_log_likelihood := Some v\<rparr>))
      else if contains coefficient_header line then scan_lines to_float K K lines self
      else if contains ''Estimation time'' line then
        (case float_at to_float (py_split line) (- 2) of
           Inl e \<Rightarrow> (Some e, self)
         | Inr v \<Rightarrow> scan_lines to_float K 0 lines (self\<lparr>u_estimation_time := Some v\<rparr>))
      else scan_lines to_float K 0 lines self)"

subsection \<open>Decimal numbers\<close>

text \<open>
  \<^verbatim>\<open>float\<close> on plain decimal literals (a sign, digits, a fraction), to run the parser
  on a given log: \<open>(m, k)\<close> stands for the number \<open>m / 10 ^ k\<close>. Other strings give
  \<open>None\<close>.
\<close>

fun digits_value :: "nat \<Rightarrow> string \<Rightarrow> nat" where
  "digits_value acc [] = acc"
| "digits_value acc (c # cs) = digits_value (10 * acc + (of_char c - 48)) cs"

definition decimal_float :: "string \<Rightarrow> (int \<times> nat) option" where
  "decimal_float s =
     (let negative = (s \<noteq> [] \<and> hd s = CHR ''-'');
          body = (if s \<noteq> [] \<and> (hd s = CHR ''-'' \<or> hd s = CHR ''+'') then tl s else s);
          whole = takeWhile isdigit body;
          rest = dropWhile isdigit body;
          fraction = (if rest \<noteq> [] \<and> hd rest = CHR ''.'' then tl rest else rest)
      in if list_all isdigit fraction \<and> (whole \<noteq> [] \<or> fraction \<noteq> [])
         then Some ((if negative then - int (digits_value 0 (whole @ fraction))
                     else int (digits_value 0 (whole @ fraction))), length fraction)
         else None)"

section \<open>Synthetic models: \<^verbatim>\<open>synthetic.py\<close>\<close>

text \<open>
  \<^verbatim>\<open>synthetic_model\<close> returns \<^verbatim>\<open>MultinomialLogit(title=..., ...)\<close>. The class is not
  among the sources; the model returned is the record of the keyword arguments it is
  built from, the utilities being the strings of the \<^verbatim>\<open>specification\<close> argument.
\<close>

record model_arguments =
  arg_title :: string
  arg_alternatives :: "string list"
  arg_choice_column :: string
  arg_availability :: "(string \<times> string) list"
  arg_alternative_independent_variables :: "string list"
  arg_alternative_dependent_variables :: "(string \<times> (string \<times> string) list) list"
  arg_intercepts :: "(string \<times> string) list"
  arg_parameters :: "string list"
  arg_specification :: "(string \<times> string) list"

text \<open>The loop that fills \<^verbatim>\<open>variables\<close>.\<close>

fun variable_columns ::
  "string list \<Rightarrow> nat list \<Rightarrow> (string \<times> (string \<times> string) list) list \<Rightarrow>
     (string \<times> (string \<times> string) list) list" where
  "variable_columns alts [] variables = variables"
| "variable_columns alts (number # numbers) variables =
     variable_columns alts numbers
       (AList.update (''variable'' @ str_nat number)
          (dict_of (map (\<lambda>alternative.
             (alternative, alternative @ ''_variable'' @ str_nat number)) alts))
          variables)"

text \<open>The loop that fills \<^verbatim>\<open>specification\<close> for all alternatives but the last.\<close>

fun intercept_specifications ::
  "(string \<times> string) list \<Rightarrow> string \<Rightarrow> string list \<Rightarrow> (string \<times> string) list \<Rightarrow>
     error + (string \<times> string) list" where
  "intercept_specifications ints linear_combination [] spec = Inr spec"
| "intercept_specifications ints linear_combination (alternative # rest) spec =
     (case dict_get ints alternative of
        Inl e \<Rightarrow> Inl e
      | Inr c \<Rightarrow>
          intercept_specifications ints linear_combination rest
            (AList.update alternative (join '' + '' [c, linear_combination]) spec))"

definition synthetic_model :: "string \<Rightarrow> nat \<Rightarrow> nat \<Rightarrow> error + model_arguments" where
  "synthetic_model ttl number_of_alternatives number_of_variables =
     (let alts = map (\<lambda>number. ''alternative'' @ str_nat number)
                   [1..<number_of_alternatives + 1];
          avail = dict_of (map (\<lambda>(number, alternative).
                    (alternative, ''availability'' @ str_nat (number + 1))) (enumerate 0 alts));
          variables = variable_columns alts [1..<number_of_variables + 1] [];
          ints = dict_of (map (\<lambda>(number, alternative).
                   (alternative, ''c'' @ str_nat (number + 1))) (enumerate 0 (butlast alts)));
          params = map (\<lambda>number. ''parameter'' @ str_nat number)
                     [1..<number_of_variables + 1];
          all_vars = dict_keys variables;
          products = map (\<lambda>(p, v). join ''*'' [p, v]) (zip params all_vars);
          linear_combination = join '' + '' products
      in case intercept_specifications ints linear_combination (butlast alts) [] of
           Inl e \<Rightarrow> Inl e
         | Inr spec \<Rightarrow>
             (case py_index alts (- 1) of
                Inl e \<Rightarrow> Inl e
              | Inr last_alternative \<Rightarrow>
                  Inr \<lparr> arg_title = ttl,
                        arg_alternatives = alts,
                        arg_choice_column = ''choice'',
                        arg_availability = avail,
                        arg_alternative_independent_variables = [],
                        arg_alternative_dependent_variables = variables,
                        arg_intercepts = ints,
                        arg_parameters = params,
                        arg_specification =
                          AList.update last_alternative linear_combination spec \<rparr>))"

section \<open>A small model\<close>

text \<open>
  Two alternatives, one alternative-independent and one alternative-dependent variable,
  two parameters and one intercept; the data table has one column more than the model
  uses.
\<close>

definition example_model :: choice_model where
  "example_model =
     \<lparr> py_type = MultinomialLogit,
       title = ''Commuting choice'',
       alternatives = [''car'', ''bus''],
       choice_column = ''mode'',
       availability = [(''car'', ''car_available''), (''bus'', ''bus_available'')],
       alternative_independent_variables = [''income''],
       alternative_dependent_variables =
         [(''time'', [(''car'', ''car_time''), (''bus'', ''bus_time'')])],
       intercepts = [(''car'', ''c_car'')],
       parameters = [''p_income'', ''p_time''],
       utility_specification =
         [(''car'', \<lparr> intercept = Some ''c_car'',
                      terms = [\<lparr> parameter = ''p_income'', variable = ''income'' \<rparr>,
                               \<lparr> parameter = ''p_time'', variable = ''time'' \<rparr>] \<rparr>),
          (''bus'', \<lparr> intercept = None,
                      terms = [\<lparr> parameter = ''p_time'', variable = ''time'' \<rparr>] \<rparr>)],
       data_columns = [''income'', ''car_time'', ''bus_time'', ''car_available'',
                       ''bus_available'', ''household'', ''mode''] \<rparr>"

definition example_kwargs :: init_kwargs where
  "example_kwargs =
     \<lparr> kw_alogit_path = Some ''alogit.exe'', kw_data_file = None, kw_alo_file = None \<rparr>"

text \<open>The interface that \<^verbatim>\<open>AlogitInterface(model, alogit_path='alogit.exe')\<close> builds.\<close>

definition example_interface :: "(int \<times> nat) alogit_interface" where
  "example_interface =
     \<lparr> abbreviation_dict =
         [(''car'', ''ch1''), (''bus'', ''ch2''), (''mode'', ''alt''),
          (''car_available'', ''av1''), (''bus_available'', ''av2''),
          (''income'', ''v1''), (''time'', ''v2''), (''car_time'', ''cv1''),
          (''bus_time'', ''cv2''), (''c_car'', ''c1''),
          (''p_income'', ''prm1''), (''p_time'', ''prm2'')],
       elongation_dict =
         [(''ch1'', ''car''), (''ch2'', ''bus''), (''alt'', ''mode''),
          (''av1'', ''car_available''), (''av2'', ''bus_available''),
          (''v1'', ''income''), (''v2'', ''time''),
          (''cv1'', ''car_time''), (''cv2'', ''bus_time''),
          (''c1'', ''c_car''), (''prm1'', ''p_income''), (''prm2'', ''p_time'')],
       model = example_model,
       alogit_path = ''alogit.exe'',
       data_file = ''Commuting.csv'',
       alo_file = ''Commuting.alo'',
       column_labels = [''v1'', ''cv1'', ''cv2'', ''av1'', ''av2'', ''household'', ''alt''],
       alo =
         [''$title  Commuting choice'',
          ''$estimate'',
          ''$coeff prm1 prm2 c1'',
          ''$nest root() ch1 ch2'',
          ''file (name=Commuting.csv) v1 cv1 cv2 av1 av2 household alt'',
          ''Avail(ch1) = av1'',
          ''Avail(ch2) = av2'',
          ''choice=recode(alt ch1, ch2)'',
          ''$array v2(alts)'',
          ''v2(ch1) = cv1'',
          ''v2(ch2) = cv2'',
          ''Util(ch1) = c1 + prm1*v1 + prm2*v2(ch1)'',
          ''Util(ch2) = prm2*v2(ch2)''],
       u_estimated = False,
       process = None,
       u_parameters = None,
       u_errors = None,
       u_t_values = None,
       u_final_log_likelihood = None,
       u_null_log_likelihood = None,
       u_estimation_time = None \<rparr>"

text \<open>
  A successful and a failed run of the solver, and the log of the successful one.
\<close>

definition ok_process :: completed_process where
  "ok_process = \<lparr> returncode = 0, stdout = ''Convergence achieved'', stderr = [] \<rparr>"

definition failed_process :: completed_process where
  "failed_process = \<lparr> returncode = 1, stdout = [], stderr = ''Licence file not found'' \<rparr>"

definition example_log :: "string list" where
  "example_log =
     [''Initial Log Likelihood   -50.0'',
      ''Final value of Log Likelihood   -40.0'',
      coefficient_header,
      ''prm1 0.50 0.10 5.0'',
      ''prm2 0.25 0.05 5.0'',
      ''c1 1.20 0.30 4.0'',
      ''Estimation time  3.2 seconds'']"

text \<open>The keyword arguments with a long path of the data file.\<close>

definition long_path_kwargs :: init_kwargs where
  "long_path_kwargs =
     \<lparr> kw_alogit_path = Some ''alogit.exe'',
       kw_data_file = Some
         ''/home/analyst/projects/transport_models/commuting_choice/estimation/observations.csv'',
       kw_alo_file = None \<rparr>"

text \<open>
  Two variations: a parameter that has the name of a variable, and two alternatives
  that share one availability column.
\<close>

definition shared_name_model :: choice_model where
  "shared_name_model = example_model\<lparr>parameters := [''income'', ''p_time'']\<rparr>"

definition shared_availability_model :: choice_model where
  "shared_availability_model =
     example_model\<lparr>alternatives := [''car'', ''bus'', ''train''],
       availability := [(''car'', ''road_open''), (''bus'', ''road_open''),
                        (''train'', ''rail_open'')]\<rparr>"

text \<open>
  A third variation: a parameter that has the name \<^verbatim>\<open>c1\<close>, which is also the token of the
  intercept, and a utility of the first alternative that is its intercept alone.
\<close>

definition token_named_model :: choice_model where
  "token_named_model =
     example_model\<lparr>parameters := [''c1'', ''p_time''],
       utility_specification :=
         [(''car'', \<lparr> intercept = Some ''c_car'', terms = [] \<rparr>),
          (''bus'', \<lparr> intercept = None,
                      terms = [\<lparr> parameter = ''p_time'', variable = ''time'' \<rparr>] \<rparr>)]\<rparr>"

section \<open>Notions used in the properties\<close>

text \<open>Where a chunk may end: at whitespace or next to a hyphen.\<close>

definition breakable :: "string \<Rightarrow> string \<Rightarrow> bool" where
  "breakable c1 c2 =
     (c1 \<noteq> [] \<and> c2 \<noteq> [] \<and>
      (re_whitespace (last c1) \<or> last c1 = CHR ''-'' \<or> re_whitespace (hd c2) \<or> hd c2 = CHR ''-''))"



text \<open>What reading the results leaves as it is.\<close>

definition unchanged :: "'f alogit_interface \<Rightarrow> 'f alogit_interface \<Rightarrow> bool" where
  "unchanged s s' =
     (model s' = model s \<and> elongation_dict s' = elongation_dict s \<and>
      abbreviation_dict s' = abbreviation_dict s \<and> u_estimated s' = u_estimated s \<and>
      process s' = process s)"

section \<open>Properties of the abbreviation registry\<close>

lemma register_all_enumerate:
  "register_all label (enumerate n xs) (f, a) =
     (f @ xs, a @ map (\<lambda>k. label @ str_nat k) [n..<n + length xs])"
proof (induction xs arbitrary: n f a)
  case Nil
  then show ?case by simp
next
  case (Cons x xs)
  have "[n..<n + length (x # xs)] = n # [Suc n..<Suc n + length xs]"
    by (simp add: upt_rec)
  then show ?case using Cons.IH [of "Suc n" "f @ [x]" "a @ [label @ str_nat n]"]
    by simp
qed

lemma full_names_eq:
  "full_names m =
     alternatives m @ [choice_column m] @ dict_values (availability m) @ all_variables m @
     alternative_dependent_variable_fields m @ dict_values (intercepts m) @ parameters m"
  by (simp add: full_names_def registered_def register_all_enumerate Let_def)

lemma abbreviations_eq:
  "abbreviations m =
     map (\<lambda>k. ''ch'' @ str_nat k) [1..<Suc (length (alternatives m))] @ [''alt''] @
     map (\<lambda>k. ''av'' @ str_nat k) [1..<Suc (length (dict_values (availability m)))] @
     map (\<lambda>k. ''v'' @ str_nat k) [1..<Suc (length (all_variables m))] @
     map (\<lambda>k. ''cv'' @ str_nat k) [1..<Suc (length (alternative_dependent_variable_fields m))] @
     map (\<lambda>k. ''c'' @ str_nat k) [1..<Suc (length (dict_values (intercepts m)))] @
     map (\<lambda>k. ''prm'' @ str_nat k) [1..<Suc (length (parameters m))]"
  by (simp add: abbreviations_def registered_def register_all_enumerate Let_def alo_labels)

lemma length_abbreviations: "length (abbreviations m) = length (full_names m)"
  by (simp add: abbreviations_eq full_names_eq del: upt_Suc)


lemma digit_char_isdigit: "isdigit (digit_char d)"
  by (simp add: isdigit_def)

lemma digit_char_inj: "a < 10 \<Longrightarrow> b < 10 \<Longrightarrow> digit_char a = digit_char b \<Longrightarrow> a = b"
  by (simp split: if_splits) arith

lemma str_nat_not_Nil: "str_nat n \<noteq> []"
  by (subst str_nat.simps) simp

lemma str_nat_digits: "\<forall>c \<in> set (str_nat n). isdigit c"
proof (induction n rule: str_nat.induct)
  case (1 n)
  show ?case
  proof (cases "n < 10")
    case True
    then show ?thesis by (subst str_nat.simps) (simp add: digit_char_isdigit del: digit_char.simps)
  next
    case False
    then show ?thesis using 1
      by (subst str_nat.simps) (simp add: digit_char_isdigit del: digit_char.simps)
  qed
qed

lemma str_nat_inj: "str_nat a = str_nat b \<Longrightarrow> a = b"
proof (induction a arbitrary: b rule: str_nat.induct)
  case (1 a)
  show ?case
  proof (cases "a < 10")
    case a: True
    show ?thesis
    proof (cases "b < 10")
      case True
      with a 1(2) show ?thesis
        using digit_char_inj [of a b] by (simp add: str_nat.simps [of a] str_nat.simps [of b] del: digit_char.simps)
    next
      case False
      with a 1(2) show ?thesis
        using str_nat_not_Nil [of "b div 10"]
        by (simp add: str_nat.simps [of a] str_nat.simps [of b] del: digit_char.simps)
    qed
  next
    case a: False
    show ?thesis
    proof (cases "b < 10")
      case True
      with a 1(2) show ?thesis
        using str_nat_not_Nil [of "a div 10"]
        by (simp add: str_nat.simps [of a] str_nat.simps [of b] del: digit_char.simps)
    next
      case False
      with a 1(2) have eq: "str_nat (a div 10) = str_nat (b div 10)"
        and d: "digit_char (a mod 10) = digit_char (b mod 10)"
        by (simp_all add: str_nat.simps [of a] str_nat.simps [of b] del: digit_char.simps)
      from 1(1) [OF a eq] have "a div 10 = b div 10" .
      moreover from d have "a mod 10 = b mod 10"
        using digit_char_inj [of "a mod 10" "b mod 10"] by simp
      ultimately show ?thesis by (metis div_mult_mod_eq)
    qed
  qed
qed

lemma str_nat_hd: "\<exists>d ds. str_nat n = d # ds \<and> isdigit d"
  using str_nat_not_Nil [of n] str_nat_digits [of n] by (cases "str_nat n") auto


lemma map_of_fold_update:
  "map_of (fold (\<lambda>(k, v) d. AList.update k v d) ps d) = map_of d ++ map_of (rev ps)"
proof (induction ps arbitrary: d)
  case Nil
  then show ?case by simp
next
  case (Cons p ps)
  obtain k v where p: "p = (k, v)" by (cases p)
  show ?case
    by (simp add: p Cons.IH update_conv' map_add_upd_left fun_eq_iff map_add_def split: option.splits)
qed

lemma map_of_dict_of: "map_of (dict_of ps) = map_of (rev ps)"
  by (simp add: dict_of_def map_of_fold_update)

lemma dict_of_last:
  assumes "length ks = length vs" and "i < length ks" and "ks ! i = k"
    and "k \<notin> set (drop (Suc i) ks)"
  shows "map_of (dict_of (zip ks vs)) k = Some (vs ! i)"
proof -
  have ks: "ks = take i ks @ k # drop (Suc i) ks"
    using assms(2,3) by (metis id_take_nth_drop)
  have vs: "vs = take i vs @ (vs ! i) # drop (Suc i) vs"
    using assms(1,2) by (metis id_take_nth_drop)
  have "zip ks vs = zip (take i ks) (take i vs) @ (k, vs ! i) # zip (drop (Suc i) ks) (drop (Suc i) vs)"
    using assms(1,2) by (subst ks, subst vs) (simp add: zip_append)
  then have "map_of (rev (zip ks vs)) k =
      map_of (rev (zip (drop (Suc i) ks) (drop (Suc i) vs)) @ (k, vs ! i) # rev (zip (take i ks) (take i vs))) k"
    by simp
  also have "\<dots> = Some (vs ! i)"
  proof -
    have "k \<notin> fst ` set (rev (zip (drop (Suc i) ks) (drop (Suc i) vs)))"
      using assms(4) by (auto dest: set_zip_leftD)
    then have "map_of (rev (zip (drop (Suc i) ks) (drop (Suc i) vs))) k = None"
      by (simp add: map_of_eq_None_iff)
    then show ?thesis by (simp add: map_add_def)
  qed
  finally show ?thesis by (simp add: map_of_dict_of)
qed

lemma last_occurrence:
  assumes "k \<in> set ks"
  shows "\<exists>i<length ks. ks ! i = k \<and> k \<notin> set (drop (Suc i) ks)"
proof -
  from split_list_last [OF assms] obtain ys zs where "ks = ys @ k # zs" "k \<notin> set zs"
    by blast
  then have "length ys < length ks \<and> ks ! length ys = k \<and> k \<notin> set (drop (Suc (length ys)) ks)"
    by simp
  then show ?thesis by blast
qed

lemma dict_of_distinct:
  assumes "length ks = length vs" and "i < length ks" and "distinct ks"
  shows "map_of (dict_of (zip ks vs)) (ks ! i) = Some (vs ! i)"
proof -
  have "ks ! i \<notin> set (drop (Suc i) ks)"
    using assms(2,3) by (metis Cons_nth_drop_Suc distinct.simps(2) distinct_drop)
  then show ?thesis using dict_of_last [OF assms(1,2) refl] by simp
qed

lemma dict_of_None:
  "k \<notin> set ks \<Longrightarrow> map_of (dict_of (zip ks vs)) k = None"
  by (auto simp: map_of_dict_of map_of_eq_None_iff dest: set_zip_leftD)


lemma takeWhile_label:
  assumes "\<forall>c \<in> set l. \<not> isdigit c"
  shows "takeWhile (\<lambda>c. \<not> isdigit c) (l @ str_nat n) = l"
proof -
  obtain d ds where "str_nat n = d # ds" "isdigit d" using str_nat_hd by blast
  then show ?thesis using assms by (simp add: takeWhile_append2)
qed

lemma token_neq:
  assumes "\<forall>c \<in> set l1. \<not> isdigit c" and "\<forall>c \<in> set l2. \<not> isdigit c" and "l1 \<noteq> l2"
  shows "l1 @ str_nat a \<noteq> l2 @ str_nat b"
proof
  assume "l1 @ str_nat a = l2 @ str_nat b"
  then have "takeWhile (\<lambda>c. \<not> isdigit c) (l1 @ str_nat a) =
      takeWhile (\<lambda>c. \<not> isdigit c) (l2 @ str_nat b)"
    by (rule arg_cong)
  then have "l1 = l2"
    by (simp only: takeWhile_label [OF assms(1)] takeWhile_label [OF assms(2)])
  with assms(3) show False by simp
qed

lemma token_neq_alt: "l @ str_nat a \<noteq> ''alt''"
proof
  assume eq: "l @ str_nat a = ''alt''"
  have "last (l @ str_nat a) \<in> set (str_nat a)"
    using str_nat_not_Nil [of a] by simp
  then have "isdigit (last (l @ str_nat a))" using str_nat_digits by blast
  then show False by (simp add: eq isdigit_def)
qed

lemma distinct_tokens: "distinct (map (\<lambda>k. l @ str_nat k) ks) = distinct ks"
  by (auto simp: distinct_map inj_on_def dest: str_nat_inj)

lemma distinct_abbreviations: "distinct (abbreviations m)"
proof -
  have nd: "\<forall>c \<in> set ''ch''. \<not> isdigit c" "\<forall>c \<in> set ''av''. \<not> isdigit c"
    "\<forall>c \<in> set ''v''. \<not> isdigit c" "\<forall>c \<in> set ''cv''. \<not> isdigit c"
    "\<forall>c \<in> set ''c''. \<not> isdigit c" "\<forall>c \<in> set ''prm''. \<not> isdigit c"
    by (simp_all add: isdigit_def)
  note neq = token_neq [OF nd(1) nd(2)] token_neq [OF nd(1) nd(3)] token_neq [OF nd(1) nd(4)]
    token_neq [OF nd(1) nd(5)] token_neq [OF nd(1) nd(6)] token_neq [OF nd(2) nd(3)]
    token_neq [OF nd(2) nd(4)] token_neq [OF nd(2) nd(5)] token_neq [OF nd(2) nd(6)]
    token_neq [OF nd(3) nd(4)] token_neq [OF nd(3) nd(5)] token_neq [OF nd(3) nd(6)]
    token_neq [OF nd(4) nd(5)] token_neq [OF nd(4) nd(6)] token_neq [OF nd(5) nd(6)]
  have alt: "\<And>l a. ''alt'' \<noteq> l @ str_nat a" using token_neq_alt by metis
  show ?thesis
    unfolding abbreviations_eq distinct_append distinct_tokens
    using neq alt token_neq_alt
    by (auto simp del: upt_Suc)
qed


lemma elongate_nth:
  "i < length (full_names m) \<Longrightarrow>
     elongate (create_abbreviations m) (abbreviations m ! i) = Inr (full_names m ! i)"
  by (simp add: elongate_def create_abbreviations_def dict_get_def dict_of_distinct
      length_abbreviations distinct_abbreviations)

lemma abbreviate_last:
  "i < length (full_names m) \<Longrightarrow> full_names m ! i = name \<Longrightarrow>
     name \<notin> set (drop (Suc i) (full_names m)) \<Longrightarrow>
     abbreviate (create_abbreviations m) name = abbreviations m ! i"
  by (simp add: abbreviate_def create_abbreviations_def dict_of_last length_abbreviations)

lemma abbreviate_unregistered:
  "s \<notin> set (full_names m) \<Longrightarrow> abbreviate (create_abbreviations m) s = s"
  by (simp add: abbreviate_def create_abbreviations_def dict_of_None)

lemma elongate_unregistered:
  "t \<notin> set (abbreviations m) \<Longrightarrow> elongate (create_abbreviations m) t = Inl KeyError"
  by (simp add: elongate_def create_abbreviations_def dict_get_def dict_of_None)

lemma abbreviate_registered:
  assumes "name \<in> set (full_names m)"
  shows "\<exists>i<length (full_names m). full_names m ! i = name \<and>
     name \<notin> set (drop (Suc i) (full_names m)) \<and>
     abbreviate (create_abbreviations m) name = abbreviations m ! i"
  using last_occurrence [OF assms] abbreviate_last by blast

lemma set_full_names:
  "set (full_names m) =
     set (alternatives m) \<union> {choice_column m} \<union> set (dict_values (availability m)) \<union>
     set (all_variables m) \<union> set (alternative_dependent_variable_fields m) \<union>
     set (dict_values (intercepts m)) \<union> set (parameters m)"
  by (auto simp: full_names_eq)

lemma length_str_nat: "n < 10 ^ k \<Longrightarrow> 0 < k \<Longrightarrow> length (str_nat n) \<le> k"
proof (induction k arbitrary: n)
  case 0
  then show ?case by simp
next
  case (Suc k)
  show ?case
  proof (cases "n < 10")
    case True
    then show ?thesis by (subst str_nat.simps) simp
  next
    case False
    then have k: "0 < k" using Suc.prems by (cases k) auto
    have "n div 10 < 10 ^ k" using Suc.prems(1) by (simp add: less_mult_imp_div_less mult.commute)
    from Suc.IH [OF this k] False show ?thesis by (subst str_nat.simps) simp
  qed
qed

text \<open>
  Claim C5. For every long name registered (an alternative, the choice column, an
  availability column, a variable, a column of an alternative-dependent variable, an
  intercept or a parameter), elongating its abbreviation gives the name back. A string
  that is no registered long name is abbreviated to itself, and a string that is no
  token of the registry cannot be elongated: the lookup raises \<open>KeyError\<close>.
\<close>

theorem registry_round_trip:
  "(name \<in> set (alternatives m) \<union> {choice_column m} \<union> set (dict_values (availability m)) \<union>
       set (all_variables m) \<union> set (alternative_dependent_variable_fields m) \<union>
       set (dict_values (intercepts m)) \<union> set (parameters m) \<longrightarrow>
     elongate (create_abbreviations m) (abbreviate (create_abbreviations m) name) = Inr name) \<and>
   (s \<notin> set (alternatives m) \<union> {choice_column m} \<union> set (dict_values (availability m)) \<union>
       set (all_variables m) \<union> set (alternative_dependent_variable_fields m) \<union>
       set (dict_values (intercepts m)) \<union> set (parameters m) \<longrightarrow>
     abbreviate (create_abbreviations m) s = s) \<and>
   (t \<notin> set (abbreviations m) \<longrightarrow> elongate (create_abbreviations m) t = Inl KeyError)"
proof (intro conjI impI)
  assume "name \<in> set (alternatives m) \<union> {choice_column m} \<union> set (dict_values (availability m)) \<union>
       set (all_variables m) \<union> set (alternative_dependent_variable_fields m) \<union>
       set (dict_values (intercepts m)) \<union> set (parameters m)"
  then have "name \<in> set (full_names m)" by (simp add: set_full_names)
  from abbreviate_registered [OF this] obtain i where
    "i < length (full_names m)" "full_names m ! i = name"
    "abbreviate (create_abbreviations m) name = abbreviations m ! i" by blast
  then show "elongate (create_abbreviations m) (abbreviate (create_abbreviations m) name) = Inr name"
    by (simp add: elongate_nth)
next
  assume "s \<notin> set (alternatives m) \<union> {choice_column m} \<union> set (dict_values (availability m)) \<union>
       set (all_variables m) \<union> set (alternative_dependent_variable_fields m) \<union>
       set (dict_values (intercepts m)) \<union> set (parameters m)"
  then have "s \<notin> set (full_names m)" by (simp add: set_full_names)
  then show "abbreviate (create_abbreviations m) s = s" by (rule abbreviate_unregistered)
next
  assume "t \<notin> set (abbreviations m)"
  then show "elongate (create_abbreviations m) t = Inl KeyError" by (rule elongate_unregistered)
qed

theorem registry_round_trip_witness:
  "''time'' \<in> set (all_variables example_model) \<and>
   elongate (create_abbreviations example_model)
     (abbreviate (create_abbreviations example_model) ''time'') = Inr ''time'' \<and>
   abbreviate (create_abbreviations example_model) ''household'' = ''household'' \<and>
   elongate (create_abbreviations example_model) ''household'' = Inl KeyError"
proof -
  have 1: "''time'' \<in> set (all_variables example_model)" by code_simp
  have 2: "''household'' \<notin> set (alternatives example_model) \<union> {choice_column example_model} \<union>
       set (dict_values (availability example_model)) \<union> set (all_variables example_model) \<union>
       set (alternative_dependent_variable_fields example_model) \<union>
       set (dict_values (intercepts example_model)) \<union> set (parameters example_model)"
    by code_simp
  have 3: "''household'' \<notin> set (abbreviations example_model)" by code_simp
  show ?thesis
    using registry_round_trip [of "''time''" example_model "''household''" "''household''"] 1 2 3
    by simp
qed

text \<open>
  Claim C8. When one long name stands at two places \<open>i < j\<close> of the registration
  order (the places of two roles, laid out by \<open>full_names_eq\<close>), the two tokens are
  different and both still elongate to the name; the abbreviation of the name is not
  the earlier token, and it is the later one when no registration of the name follows.
\<close>

theorem same_name_two_roles:
  assumes "i < j" and "j < length (full_names m)"
    and "full_names m ! i = name" and "full_names m ! j = name"
  shows "elongate (create_abbreviations m) (abbreviations m ! i) = Inr name \<and>
     elongate (create_abbreviations m) (abbreviations m ! j) = Inr name \<and>
     abbreviations m ! i \<noteq> abbreviations m ! j \<and>
     abbreviate (create_abbreviations m) name \<noteq> abbreviations m ! i \<and>
     (name \<notin> set (drop (Suc j) (full_names m)) \<longrightarrow>
        abbreviate (create_abbreviations m) name = abbreviations m ! j)"
proof -
  have i: "i < length (full_names m)" using assms(1,2) by simp
  have neq: "\<And>k. k < length (full_names m) \<Longrightarrow> k \<noteq> i \<Longrightarrow>
      abbreviations m ! k \<noteq> abbreviations m ! i"
    using i distinct_abbreviations [of m] by (simp add: nth_eq_iff_index_eq length_abbreviations)
  have "name \<in> set (full_names m)" using assms(2,4) nth_mem by blast
  from last_occurrence [OF this] obtain l where
    l: "l < length (full_names m)" "full_names m ! l = name"
    "name \<notin> set (drop (Suc l) (full_names m))" by blast
  have "l \<noteq> i"
  proof
    assume "l = i"
    then have "name \<notin> set (drop (Suc i) (full_names m))" using l(3) by simp
    moreover have "full_names m ! j \<in> set (drop (Suc i) (full_names m))"
    proof -
      have "drop (Suc i) (full_names m) ! (j - Suc i) = full_names m ! j"
        using assms(1,2) by simp
      moreover have "j - Suc i < length (drop (Suc i) (full_names m))"
        using assms(1,2) by simp
      ultimately show ?thesis by (metis nth_mem)
    qed
    ultimately show False using assms(4) by simp
  qed
  then have "abbreviate (create_abbreviations m) name \<noteq> abbreviations m ! i"
    using abbreviate_last [OF l] neq [OF l(1)] by simp
  then show ?thesis
    using elongate_nth [OF i] elongate_nth [OF assms(2)] neq [OF assms(2)] assms
      abbreviate_last [OF assms(2) assms(4)]
    by auto
qed

theorem same_name_two_roles_witness:
  "elongate (create_abbreviations shared_name_model) ''v1'' = Inr ''income'' \<and>
   elongate (create_abbreviations shared_name_model) ''prm1'' = Inr ''income'' \<and>
   abbreviate (create_abbreviations shared_name_model) ''income'' = ''prm1''"
proof -
  have 1: "(5::nat) < 10" by simp
  have 2: "10 < length (full_names shared_name_model)" by code_simp
  have 3: "full_names shared_name_model ! 5 = ''income''" by code_simp
  have 4: "full_names shared_name_model ! 10 = ''income''" by code_simp
  have 5: "''income'' \<notin> set (drop (Suc 10) (full_names shared_name_model))" by code_simp
  have 6: "abbreviations shared_name_model ! 5 = ''v1''" by code_simp
  have 7: "abbreviations shared_name_model ! 10 = ''prm1''" by code_simp
  show ?thesis
    using same_name_two_roles [OF 1 2 3 4] 5 by (simp only: 6 7) simp
qed

text \<open>
  Claim C7, as amended. The token of a registered long name is the token at the last
  place the name has in the registration order. The tokens, place by place, are
  \<open>ch1, ch2, ...\<close> for the alternatives, the fixed token \<open>alt\<close> for the choice column, then
  \<open>av\<close>, \<open>v\<close>, \<open>cv\<close>, \<open>c\<close> and \<open>prm\<close> followed by the 1-based position in the
  list of the role, repeated names counted. Two different long names never have the
  same token.
\<close>

theorem token_assignment:
  "(name \<in> set (full_names m) \<longrightarrow>
      (\<exists>i<length (full_names m). full_names m ! i = name \<and>
         name \<notin> set (drop (Suc i) (full_names m)) \<and>
         abbreviate (create_abbreviations m) name = abbreviations m ! i)) \<and>
   full_names m =
     alternatives m @ [choice_column m] @ dict_values (availability m) @ all_variables m @
     alternative_dependent_variable_fields m @ dict_values (intercepts m) @ parameters m \<and>
   abbreviations m =
     map (\<lambda>k. ''ch'' @ str_nat k) [1..<Suc (length (alternatives m))] @ [''alt''] @
     map (\<lambda>k. ''av'' @ str_nat k) [1..<Suc (length (dict_values (availability m)))] @
     map (\<lambda>k. ''v'' @ str_nat k) [1..<Suc (length (all_variables m))] @
     map (\<lambda>k. ''cv'' @ str_nat k) [1..<Suc (length (alternative_dependent_variable_fields m))] @
     map (\<lambda>k. ''c'' @ str_nat k) [1..<Suc (length (dict_values (intercepts m)))] @
     map (\<lambda>k. ''prm'' @ str_nat k) [1..<Suc (length (parameters m))] \<and>
   (name \<in> set (full_names m) \<and> name' \<in> set (full_names m) \<and> name \<noteq> name' \<longrightarrow>
      abbreviate (create_abbreviations m) name \<noteq> abbreviate (create_abbreviations m) name')"
proof (intro conjI impI)
  assume "name \<in> set (full_names m)"
  then show "\<exists>i<length (full_names m). full_names m ! i = name \<and>
         name \<notin> set (drop (Suc i) (full_names m)) \<and>
         abbreviate (create_abbreviations m) name = abbreviations m ! i"
    by (rule abbreviate_registered)
next
  show "full_names m =
     alternatives m @ [choice_column m] @ dict_values (availability m) @ all_variables m @
     alternative_dependent_variable_fields m @ dict_values (intercepts m) @ parameters m"
    by (rule full_names_eq)
next
  show "abbreviations m =
     map (\<lambda>k. ''ch'' @ str_nat k) [1..<Suc (length (alternatives m))] @ [''alt''] @
     map (\<lambda>k. ''av'' @ str_nat k) [1..<Suc (length (dict_values (availability m)))] @
     map (\<lambda>k. ''v'' @ str_nat k) [1..<Suc (length (all_variables m))] @
     map (\<lambda>k. ''cv'' @ str_nat k) [1..<Suc (length (alternative_dependent_variable_fields m))] @
     map (\<lambda>k. ''c'' @ str_nat k) [1..<Suc (length (dict_values (intercepts m)))] @
     map (\<lambda>k. ''prm'' @ str_nat k) [1..<Suc (length (parameters m))]"
    by (rule abbreviations_eq)
next
  assume a: "name \<in> set (full_names m) \<and> name' \<in> set (full_names m) \<and> name \<noteq> name'"
  from a abbreviate_registered [of name m] obtain i where
    i: "i < length (full_names m)" "full_names m ! i = name"
    "abbreviate (create_abbreviations m) name = abbreviations m ! i" by blast
  from a abbreviate_registered [of name' m] obtain j where
    j: "j < length (full_names m)" "full_names m ! j = name'"
    "abbreviate (create_abbreviations m) name' = abbreviations m ! j" by blast
  from a i(2) j(2) have "i \<noteq> j" by auto
  then have "abbreviations m ! i \<noteq> abbreviations m ! j"
    using i(1) j(1) distinct_abbreviations [of m]
    by (simp add: nth_eq_iff_index_eq length_abbreviations)
  then show "abbreviate (create_abbreviations m) name \<noteq> abbreviate (create_abbreviations m) name'"
    by (simp add: i(3) j(3))
qed

theorem token_assignment_witness:
  "(\<exists>i<length (full_names example_model). full_names example_model ! i = ''time'' \<and>
      ''time'' \<notin> set (drop (Suc i) (full_names example_model)) \<and>
      abbreviate (create_abbreviations example_model) ''time'' = abbreviations example_model ! i) \<and>
   abbreviate (create_abbreviations example_model) ''time'' \<noteq>
     abbreviate (create_abbreviations example_model) ''income''"
proof -
  have 1: "''time'' \<in> set (full_names example_model)" by code_simp
  have 2: "''income'' \<in> set (full_names example_model)" by code_simp
  have 3: "''time'' \<noteq> ''income''" by simp
  show ?thesis
    using token_assignment [of "''time''" example_model "''income''"] 1 2 3 by blast
qed

text \<open>
  The claim as first stated fails in two ways: the token of the choice column is
  \<open>alt\<close>, with no index; and a name that is the second one first seen among the
  availability columns, after a repeated one, has the index 3.
\<close>

theorem token_assignment_counterexample:
  "abbreviate (create_abbreviations example_model) (choice_column example_model) = ''alt'' \<and>
   (\<forall>k. ''alt'' \<noteq> ALO_LABEL_CHOICE_COLUMN @ str_nat k) \<and>
   remdups (dict_values (availability shared_availability_model)) = [''road_open'', ''rail_open''] \<and>
   abbreviate (create_abbreviations shared_availability_model) ''rail_open'' =
     ALO_LABEL_AVAILABILITY @ str_nat 3 \<and>
   abbreviate (create_abbreviations shared_availability_model) ''rail_open'' \<noteq>
     ALO_LABEL_AVAILABILITY @ str_nat 2"
proof (intro conjI)
  show "abbreviate (create_abbreviations example_model) (choice_column example_model) = ''alt''"
    by code_simp
  show "\<forall>k. ''alt'' \<noteq> ALO_LABEL_CHOICE_COLUMN @ str_nat k"
    by (metis ALO_LABEL_CHOICE_COLUMN_def self_append_conv str_nat_not_Nil)
  show "remdups (dict_values (availability shared_availability_model)) = [''road_open'', ''rail_open'']"
    by code_simp
  show "abbreviate (create_abbreviations shared_availability_model) ''rail_open'' =
     ALO_LABEL_AVAILABILITY @ str_nat 3"
    by code_simp
  show "abbreviate (create_abbreviations shared_availability_model) ''rail_open'' \<noteq>
     ALO_LABEL_AVAILABILITY @ str_nat 2"
    by code_simp
qed

lemma segment_length:
  assumes "n < 10000000" and "length l \<le> 3"
  shows "\<forall>t \<in> set (map (\<lambda>k. l @ str_nat k) [1..<Suc n]). length t \<le> 10"
proof
  fix t assume "t \<in> set (map (\<lambda>k. l @ str_nat k) [1..<Suc n])"
  then obtain k where k: "t = l @ str_nat k" "k < Suc n" by (auto simp del: upt_Suc)
  then have "k < 10 ^ 7" using assms(1) by simp
  from length_str_nat [OF this] have "length (str_nat k) \<le> 7" by simp
  then show "length t \<le> 10" using assms(2) k(1) by simp
qed

lemma token_lengths:
  assumes "length (alternatives m) < 10000000"
    and "length (dict_values (availability m)) < 10000000"
    and "length (all_variables m) < 10000000"
    and "length (alternative_dependent_variable_fields m) < 10000000"
    and "length (dict_values (intercepts m)) < 10000000"
    and "length (parameters m) < 10000000"
  shows "\<forall>t \<in> set (abbreviations m). length t \<le> MAX_CHARACTER_LENGTH"
proof -
  have "\<forall>t \<in> set [''alt'']. length t \<le> 10" by simp
  then show ?thesis
    unfolding abbreviations_eq MAX_CHARACTER_LENGTH_def set_append ball_Un
    using segment_length [OF assms(1), of "''ch''"] segment_length [OF assms(2), of "''av''"]
      segment_length [OF assms(3), of "''v''"] segment_length [OF assms(4), of "''cv''"]
      segment_length [OF assms(5), of "''c''"] segment_length [OF assms(6), of "''prm''"]
    by simp
qed

section \<open>Properties of the parser and of \<^verbatim>\<open>estimate\<close>\<close>


lemma unchanged_refl: "unchanged s s"
  by (simp add: unchanged_def)

lemma unchanged_trans: "unchanged s s' \<Longrightarrow> unchanged s' s'' \<Longrightarrow> unchanged s s''"
  by (simp add: unchanged_def)

lemma store_result_unchanged: "store_result to_float fs s = (r, s') \<Longrightarrow> unchanged s s'"
  by (auto simp: store_result_def unchanged_def Let_def split: sum.splits)

lemma read_results_unchanged:
  "read_results to_float n lines s = ((r, s'), rest) \<Longrightarrow> unchanged s s'"
proof (induction n arbitrary: lines s)
  case 0
  then show ?case by (simp add: unchanged_def)
next
  case (Suc n)
  obtain r1 s1 where st: "store_result to_float (py_split (fst (readline lines))) s = (r1, s1)"
    by (cases "store_result to_float (py_split (fst (readline lines))) s")
  note u1 = store_result_unchanged [OF st]
  show ?case
  proof (cases r1)
    case None
    with Suc.prems st have "read_results to_float n (snd (readline lines)) s1 = ((r, s'), rest)"
      by simp
    from Suc.IH [OF this] u1 show ?thesis by (rule unchanged_trans [rotated])
  next
    case (Some e)
    with Suc.prems st have "s' = s1" by simp
    with u1 show ?thesis by simp
  qed
qed

lemma scan_read_results:
  "scan_lines to_float K n lines s =
     (case read_results to_float n lines s of
        ((Some e, s'), rest) \<Rightarrow> (Some e, s')
      | ((None, s'), rest) \<Rightarrow> scan_lines to_float K 0 rest s')"
proof (induction n arbitrary: lines s)
  case 0
  then show ?case by simp
next
  case (Suc n)
  show ?case
  proof (cases lines)
    case Nil
    then show ?thesis
      by (simp add: readline_def py_split_def store_result_def py_index_def)
  next
    case (Cons l ls)
    then show ?thesis
      using Suc.IH [of ls]
      by (simp add: readline_def split: prod.splits option.splits)
  qed
qed

lemma parse_lines_scan:
  "parse_lines to_float lines s =
     scan_lines to_float (number_of_parameters (model s) True) 0 lines s"
proof (induction to_float lines s rule: parse_lines.induct)
  case (1 to_float self)
  then show ?case by simp
next
  case (2 to_float line lines self)
  let ?K = "number_of_parameters (model self) True"
  show ?case
  proof (cases "contains ''Final value of Log Likelihood'' line")
    case True
    then show ?thesis using 2(1) by (simp split: sum.splits)
  next
    case nf: False
    show ?thesis
    proof (cases "contains ''Initial Log Likelihood'' line")
      case True
      then show ?thesis using nf 2(2) by (simp split: sum.splits)
    next
      case ni: False
      show ?thesis
      proof (cases "contains coefficient_header line")
        case True
        obtain r s' rest where rr: "read_results to_float ?K lines self = ((r, s'), rest)"
          by (metis prod.exhaust)
        have m: "model s' = model self"
          using read_results_unchanged [OF rr] by (simp add: unchanged_def)
        show ?thesis
        proof (cases r)
          case None
          have "parse_lines to_float rest s' = scan_lines to_float ?K 0 rest s'"
            using 2(3) [OF nf ni True rr [symmetric]] None m by simp
          then show ?thesis
            using nf ni True rr None by (simp add: scan_read_results [of to_float ?K ?K])
        next
          case (Some e)
          then show ?thesis
            using nf ni True rr by (simp add: scan_read_results [of to_float ?K ?K])
        qed
      next
        case nh: False
        show ?thesis
        proof (cases "contains ''Estimation time'' line")
          case True
          then show ?thesis using nf ni nh 2(4) by (simp split: sum.splits)
        next
          case False
          then show ?thesis using nf ni nh 2(5) by simp
        qed
      qed
    qed
  qed
qed


lemma scan_lines_unchanged:
  "scan_lines to_float K n lines s = (r, s') \<Longrightarrow> unchanged s s'"
proof (induction lines arbitrary: n s)
  case Nil
  then show ?case by (auto simp: unchanged_def split: if_splits)
next
  case (Cons l ls)
  show ?case
  proof (cases "0 < n")
    case True
    obtain r1 s1 where st: "store_result to_float (py_split l) s = (r1, s1)"
      by (cases "store_result to_float (py_split l) s")
    note u1 = store_result_unchanged [OF st]
    show ?thesis
    proof (cases r1)
      case None
      with Cons.prems True st have "scan_lines to_float K (n - 1) ls s1 = (r, s')" by simp
      from Cons.IH [OF this] u1 show ?thesis by (rule unchanged_trans [rotated])
    next
      case (Some e)
      with Cons.prems True st have "s' = s1" by simp
      with u1 show ?thesis by simp
    qed
  next
    case False
    have upd: "\<And>x m. scan_lines to_float K m ls x = (r, s') \<Longrightarrow> unchanged s x \<Longrightarrow> unchanged s s'"
      using Cons.IH unchanged_trans by blast
    have u: "unchanged s (s\<lparr>u_final_log_likelihood := v\<rparr>)"
      "unchanged s (s\<lparr>u_null_log_likelihood := v\<rparr>)"
      "unchanged s (s\<lparr>u_estimation_time := v\<rparr>)" "unchanged s s" for v
      by (simp_all add: unchanged_def)
    show ?thesis
      using Cons.prems False
      by (auto split: if_splits sum.splits intro: upd u unchanged_refl)
  qed
qed

lemma scan_lines_append:
  "scan_lines to_float K n pre s = (None, s1) \<Longrightarrow>
     scan_lines to_float K n (pre @ suf) s = scan_lines to_float K 0 suf s1"
proof (induction pre arbitrary: n s)
  case Nil
  then show ?case by (auto split: if_splits)
next
  case (Cons l ls)
  then show ?case
    by (auto split: if_splits sum.splits prod.splits option.splits)
qed

lemma scan_good_rows:
  "read_results to_float j good s = ((None, s2), []) \<Longrightarrow> j \<le> n \<Longrightarrow>
     scan_lines to_float K n (good @ suf) s = scan_lines to_float K (n - j) suf s2"
proof (induction j arbitrary: good s n)
  case 0
  then show ?case by simp
next
  case (Suc j)
  show ?case
  proof (cases good)
    case Nil
    with Suc.prems show ?thesis
      by (simp add: readline_def py_split_def store_result_def py_index_def)
  next
    case (Cons g gs)
    obtain r1 s1 where st: "store_result to_float (py_split g) s = (r1, s1)"
      by (cases "store_result to_float (py_split g) s")
    with Suc.prems Cons have r1: "r1 = None"
      and rr: "read_results to_float j gs s1 = ((None, s2), [])"
      by (auto simp: readline_def split: option.splits)
    from Suc.prems(2) obtain n' where n: "n = Suc n'" "j \<le> n'" by (cases n) auto
    from Suc.IH [OF rr n(2)] show ?thesis
      using Cons st r1 n by simp
  qed
qed

text \<open>
  Claim C4, as amended. The parser is the line scanner \<open>scan_lines\<close>: a line is
  tested for the triggers in the order final log-likelihood, initial log-likelihood,
  table header, estimation time, and only the first trigger it contains is applied (the
  last field, or the last but one for the time, is converted and kept); after the
  header exactly \<open>K\<close> lines are read as rows, without being tested for triggers; every
  other line is ignored. A row whose first four fields are a token that elongates to
  \<open>name\<close> and three numbers stores the three numbers under \<open>name\<close>; further fields are
  not looked at.
\<close>

theorem parser_is_line_scanner:
  "parse_output_file to_float log self =
     scan_lines to_float (number_of_parameters (model self) True) 0 log
       (self\<lparr>u_parameters := Some [], u_errors := Some [], u_t_values := Some []\<rparr>) \<and>
   (elongate self token = Inr name \<and> to_float e = Some v1 \<and> to_float se = Some v2 \<and>
      to_float t = Some v3 \<longrightarrow>
    store_result to_float (token # e # se # t # extra) self =
      (None, self\<lparr>u_parameters := dict_set (u_parameters self) name v1,
                  u_errors := dict_set (u_errors self) name v2,
                  u_t_values := dict_set (u_t_values self) name v3\<rparr>))"
  by (auto simp: parse_output_file_def parse_lines_scan store_result_def py_index_def
      float_at_def elongate_def)

theorem parser_is_line_scanner_witness:
  "parse_output_file decimal_float example_log example_interface =
     (None, example_interface
        \<lparr>u_parameters := Some [(''p_income'', (50, 2)), (''p_time'', (25, 2)), (''c_car'', (120, 2))],
         u_errors := Some [(''p_income'', (10, 2)), (''p_time'', (5, 2)), (''c_car'', (30, 2))],
         u_t_values := Some [(''p_income'', (50, 1)), (''p_time'', (50, 1)), (''c_car'', (40, 1))],
         u_final_log_likelihood := Some (- 400, 1),
         u_null_log_likelihood := Some (- 500, 1),
         u_estimation_time := Some (32, 1)\<rparr>) \<and>
   store_result decimal_float [''prm1'', ''0.50'', ''0.10'', ''5.0''] example_interface =
     (None, example_interface
        \<lparr>u_parameters := Some [(''p_income'', (50, 2))],
         u_errors := Some [(''p_income'', (10, 2))],
         u_t_values := Some [(''p_income'', (50, 1))]\<rparr>)"
proof -
  have 1: "scan_lines decimal_float (number_of_parameters (model example_interface) True) 0
      example_log
      (example_interface\<lparr>u_parameters := Some [], u_errors := Some [], u_t_values := Some []\<rparr>) =
     (None, example_interface
        \<lparr>u_parameters := Some [(''p_income'', (50, 2)), (''p_time'', (25, 2)), (''c_car'', (120, 2))],
         u_errors := Some [(''p_income'', (10, 2)), (''p_time'', (5, 2)), (''c_car'', (30, 2))],
         u_t_values := Some [(''p_income'', (50, 1)), (''p_time'', (50, 1)), (''c_car'', (40, 1))],
         u_final_log_likelihood := Some (- 400, 1),
         u_null_log_likelihood := Some (- 500, 1),
         u_estimation_time := Some (32, 1)\<rparr>)"
    by code_simp
  have 2: "elongate example_interface ''prm1'' = Inr ''p_income''" by code_simp
  have 3: "decimal_float ''0.50'' = Some (50, 2)" "decimal_float ''0.10'' = Some (10, 2)"
    "decimal_float ''5.0'' = Some (50, 1)" by code_simp+
  have 4: "dict_set (u_parameters example_interface) ''p_income'' (50, 2) = Some [(''p_income'', (50 :: int, 2 :: nat))]"
    "dict_set (u_errors example_interface) ''p_income'' (10, 2) = Some [(''p_income'', (10 :: int, 2 :: nat))]"
    "dict_set (u_t_values example_interface) ''p_income'' (50, Suc 0) = Some [(''p_income'', (50 :: int, Suc 0))]"
    by code_simp+
  show ?thesis
    using parser_is_line_scanner [of decimal_float example_log example_interface "''prm1''"
        "''p_income''" "''0.50''" "(50, 2)" "''0.10''" "(10, 2)" "''5.0''" "(50, 1)" "[]"]
      1 2 3
    by (simp add: 4)
qed

text \<open>
  The claim as first stated fails on a line with two triggers: a line that contains
  "Estimation time" and "Initial Log Likelihood" sets the initial log-likelihood only,
  and a line that contains "Initial Log Likelihood" after "Final value of Log
  Likelihood" sets the final log-likelihood only.
\<close>

theorem parser_triggers_counterexample:
  "contains ''Estimation time'' ''Estimation time for Initial Log Likelihood 3.2 -50.0'' \<and>
   parse_output_file decimal_float
     [''Estimation time for Initial Log Likelihood 3.2 -50.0''] example_interface =
     (None, example_interface
        \<lparr>u_parameters := Some [], u_errors := Some [], u_t_values := Some [],
         u_null_log_likelihood := Some (- 500, 1)\<rparr>) \<and>
   u_estimation_time (snd (parse_output_file decimal_float
     [''Estimation time for Initial Log Likelihood 3.2 -50.0''] example_interface)) = None \<and>
   contains ''Initial Log Likelihood''
     ''Final value of Log Likelihood (Initial Log Likelihood -50.0) -40.0'' \<and>
   u_null_log_likelihood (snd (parse_output_file decimal_float
     [''Final value of Log Likelihood (Initial Log Likelihood -50.0) -40.0''] example_interface))
     = None"
  by code_simp

lemma estimate_failure_flag:
  assumes "estimate to_float proc log self = (Some e, s')"
  shows "returncode proc = 0 \<and> u_estimated s' \<and> process s' = process self"
proof -
  obtain r s1 where p: "parse_output_file to_float log (self\<lparr>u_estimated := True\<rparr>) = (r, s1)"
    by (metis prod.exhaust)
  then have "unchanged (self\<lparr>u_estimated := True, u_parameters := Some [], u_errors := Some [],
      u_t_values := Some []\<rparr>) s1"
    by (auto simp: parse_output_file_def parse_lines_scan dest: scan_lines_unchanged)
  then have "u_estimated s1 \<and> process s1 = process self" by (simp add: unchanged_def)
  then show ?thesis
    using assms p by (auto simp: estimate_def split: if_splits option.splits)
qed

text \<open>
  Claim C3, as amended. After a successful run of the solver, let the log up to a table
  header parse, and let \<open>j\<close> rows, fewer than \<open>K\<close>, follow and be read. If the log ends
  there, \<^verbatim>\<open>estimate\<close> raises \<open>IndexError\<close>; if the next row starts with a token that
  cannot be elongated, it raises \<open>KeyError\<close>. In both cases the interface is left as it
  was when the exception was raised: the flag \<^verbatim>\<open>_estimated\<close> is true, the process is not
  stored, and the log-likelihoods and rows read so far stay.
\<close>

theorem parse_failure_keeps_state:
  assumes "returncode proc = 0"
    and "parse_output_file to_float pre (self\<lparr>u_estimated := True\<rparr>) = (None, s1)"
    and "contains coefficient_header hdr"
    and "\<not> contains ''Final value of Log Likelihood'' hdr"
    and "\<not> contains ''Initial Log Likelihood'' hdr"
    and "read_results to_float j good s1 = ((None, s2), [])"
    and "j < number_of_parameters (model self) True"
  shows "estimate to_float proc (pre @ hdr # good) self = (Some IndexError, s2) \<and>
     (py_split bad = token # fs \<and> elongate self token = Inl KeyError \<longrightarrow>
        estimate to_float proc (pre @ hdr # good @ bad # rest) self = (Some KeyError, s2)) \<and>
     u_estimated s2 \<and> process s2 = process self \<and>
     u_final_log_likelihood s2 = u_final_log_likelihood s1 \<and>
     u_null_log_likelihood s2 = u_null_log_likelihood s1"
proof -
  let ?K = "number_of_parameters (model self) True"
  let ?s0 = "self\<lparr>u_estimated := True, u_parameters := Some [], u_errors := Some [],
      u_t_values := Some []\<rparr>"
  have pre: "scan_lines to_float ?K 0 pre ?s0 = (None, s1)"
    using assms(2) by (simp add: parse_output_file_def parse_lines_scan)
  have u1: "unchanged ?s0 s1" using scan_lines_unchanged [OF pre] .
  have u2: "unchanged s1 s2" using read_results_unchanged [OF assms(6)] .
  have el: "elongate s2 = elongate self"
    using u1 u2 by (simp add: unchanged_def elongate_def fun_eq_iff)
  have scan: "scan_lines to_float ?K 0 (pre @ hdr # good @ suf) ?s0 =
      scan_lines to_float ?K (?K - j) suf s2" for suf
    using scan_lines_append [OF pre, of "hdr # good @ suf"] assms(3,4,5,7)
      scan_good_rows [OF assms(6), of ?K ?K suf]
    by simp
  have pos: "0 < ?K - j" using assms(7) by simp
  have short: "parse_output_file to_float (pre @ hdr # good) (self\<lparr>u_estimated := True\<rparr>) =
      (Some IndexError, s2)"
    using scan [of "[]"] pos by (simp add: parse_output_file_def parse_lines_scan)
  have unknown: "parse_output_file to_float (pre @ hdr # good @ bad # rest)
      (self\<lparr>u_estimated := True\<rparr>) = (Some KeyError, s2)"
    if "py_split bad = token # fs" "elongate self token = Inl KeyError"
    using scan [of "bad # rest"] pos that el
    by (simp add: parse_output_file_def parse_lines_scan store_result_def py_index_def)
  have fin: "u_final_log_likelihood s2 = u_final_log_likelihood s1 \<and>
      u_null_log_likelihood s2 = u_null_log_likelihood s1"
    using assms(6)
  proof (induction j arbitrary: good s1)
    case 0
    then show ?case by simp
  next
    case (Suc j)
    obtain r1 sa where st: "store_result to_float (py_split (fst (readline good))) s1 = (r1, sa)"
      by (metis prod.exhaust)
    with Suc.prems have rr: "read_results to_float j (snd (readline good)) sa = ((None, s2), [])"
      by (auto split: option.splits)
    have "u_final_log_likelihood sa = u_final_log_likelihood s1 \<and>
        u_null_log_likelihood sa = u_null_log_likelihood s1"
      using st by (auto simp: store_result_def Let_def split: sum.splits)
    with Suc.IH [OF rr] show ?case by simp
  qed
  show ?thesis
    using short unknown u1 u2 fin assms(1)
    by (auto simp: estimate_def unchanged_def)
qed

theorem parse_failure_keeps_state_witness:
  "estimate decimal_float ok_process (take 4 example_log) example_interface =
     (Some IndexError,
      example_interface
        \<lparr>u_estimated := True,
         u_parameters := Some [(''p_income'', (50, 2))],
         u_errors := Some [(''p_income'', (10, 2))],
         u_t_values := Some [(''p_income'', (50, 1))],
         u_final_log_likelihood := Some (- 400, 1),
         u_null_log_likelihood := Some (- 500, 1)\<rparr>) \<and>
   estimate decimal_float ok_process
     (take 4 example_log @ [''zzz 0.25 0.05 5.0'', ''c1 1.20 0.30 4.0'']) example_interface =
     (Some KeyError,
      example_interface
        \<lparr>u_estimated := True,
         u_parameters := Some [(''p_income'', (50, 2))],
         u_errors := Some [(''p_income'', (10, 2))],
         u_t_values := Some [(''p_income'', (50, 1))],
         u_final_log_likelihood := Some (- 400, 1),
         u_null_log_likelihood := Some (- 500, 1)\<rparr>)"
proof -
  let ?s1 = "example_interface
        \<lparr>u_estimated := True, u_parameters := Some [], u_errors := Some [],
         u_t_values := Some [],
         u_final_log_likelihood := Some (- 400, 1),
         u_null_log_likelihood := Some (- 500, 1)\<rparr>"
  let ?s2 = "example_interface
        \<lparr>u_estimated := True,
         u_parameters := Some [(''p_income'', (50, 2))],
         u_errors := Some [(''p_income'', (10, 2))],
         u_t_values := Some [(''p_income'', (50, 1))],
         u_final_log_likelihood := Some (- 400, 1),
         u_null_log_likelihood := Some (- 500, 1)\<rparr>"
  have 1: "returncode ok_process = 0" by code_simp
  have 2: "parse_output_file decimal_float (take 2 example_log)
      (example_interface\<lparr>u_estimated := True\<rparr>) = (None, ?s1)"
    by code_simp
  have 3: "contains coefficient_header coefficient_header" by code_simp
  have 4: "\<not> contains ''Final value of Log Likelihood'' coefficient_header" by code_simp
  have 5: "\<not> contains ''Initial Log Likelihood'' coefficient_header" by code_simp
  have 6: "read_results decimal_float 1 [''prm1 0.50 0.10 5.0''] ?s1 = ((None, ?s2), [])"
    by code_simp
  have 7: "1 < number_of_parameters (model example_interface) True" by code_simp
  have 8: "py_split ''zzz 0.25 0.05 5.0'' = [''zzz'', ''0.25'', ''0.05'', ''5.0'']" by code_simp
  have 9: "elongate example_interface ''zzz'' = Inl KeyError" by code_simp
  have 10: "take 2 example_log @ coefficient_header # [''prm1 0.50 0.10 5.0''] = take 4 example_log"
    by code_simp
  have 11: "take 2 example_log @ coefficient_header # [''prm1 0.50 0.10 5.0''] @
      ''zzz 0.25 0.05 5.0'' # [''c1 1.20 0.30 4.0''] =
      take 4 example_log @ [''zzz 0.25 0.05 5.0'', ''c1 1.20 0.30 4.0'']"
    by code_simp
  show ?thesis
    using parse_failure_keeps_state [OF 1 2 3 4 5 6 7, of "''zzz 0.25 0.05 5.0''" "''zzz''"
        "[''0.25'', ''0.05'', ''5.0'']" "[''c1 1.20 0.30 4.0'']"] 8 9
    by (simp only: 10 11)
qed

text \<open>
  The claim as first stated fails: after the exception the instance is in the estimated
  state, and the accessors return the values read before the failure.
\<close>

theorem parse_failure_counterexample:
  "fst (estimate decimal_float ok_process (take 4 example_log) example_interface)
     = Some IndexError \<and>
   u_estimated (snd (estimate decimal_float ok_process (take 4 example_log) example_interface)) \<and>
   final_log_likelihood
     (snd (estimate decimal_float ok_process (take 4 example_log) example_interface))
     = Inr (- 400, 1) \<and>
   result_parameters
     (snd (estimate decimal_float ok_process (take 4 example_log) example_interface))
     = Inr [(''p_income'', (50, 2))] \<and>
   fst (estimate decimal_float ok_process
     (take 4 example_log @ [''zzz 0.25 0.05 5.0'', ''c1 1.20 0.30 4.0'']) example_interface)
     = Some KeyError \<and>
   u_estimated (snd (estimate decimal_float ok_process
     (take 4 example_log @ [''zzz 0.25 0.05 5.0'', ''c1 1.20 0.30 4.0'']) example_interface)) \<and>
   standard_errors (snd (estimate decimal_float ok_process
     (take 4 example_log @ [''zzz 0.25 0.05 5.0'', ''c1 1.20 0.30 4.0'']) example_interface))
     = Inr [(''p_income'', (10, 2))]"
  by code_simp

lemma failed_run:
  assumes "returncode proc \<noteq> 0" and "\<not> u_estimated self"
  shows "estimate to_float proc log self = (None, self\<lparr>process := Some proc\<rparr>) \<and>
     display_results (self\<lparr>process := Some proc\<rparr>) = Inl NotEstimated \<and>
     null_log_likelihood (self\<lparr>process := Some proc\<rparr>) = Inl NotEstimated \<and>
     final_log_likelihood (self\<lparr>process := Some proc\<rparr>) = Inl NotEstimated \<and>
     result_parameters (self\<lparr>process := Some proc\<rparr>) = Inl NotEstimated \<and>
     standard_errors (self\<lparr>process := Some proc\<rparr>) = Inl NotEstimated \<and>
     t_values (self\<lparr>process := Some proc\<rparr>) = Inl NotEstimated \<and>
     estimation_time (self\<lparr>process := Some proc\<rparr>) = Inl NotEstimated"
  using assms
  by (simp add: estimate_def display_results_def null_log_likelihood_def
      final_log_likelihood_def result_parameters_def standard_errors_def t_values_def
      estimation_time_def requires_estimation_def)

text \<open>
  Claim C2, at a failed run on a fresh interface: \<^verbatim>\<open>estimate\<close> raises nothing, the flag
  stays false, the process with its error output is stored, and the accessors fail
  with "estimation has not been performed". So does \<^verbatim>\<open>display_results\<close>, although
  its body would print the error output of a failed process: the output is kept but
  cannot be displayed.
\<close>

theorem failed_run_hides_output:
  "estimate decimal_float failed_process [] example_interface =
     (None, example_interface\<lparr>process := Some failed_process\<rparr>) \<and>
   u_estimated (example_interface\<lparr>process := Some failed_process\<rparr>) = False \<and>
   process (example_interface\<lparr>process := Some failed_process\<rparr>) = Some failed_process \<and>
   stderr failed_process = ''Licence file not found'' \<and>
   null_log_likelihood (example_interface\<lparr>process := Some failed_process\<rparr>) = Inl NotEstimated \<and>
   result_parameters (example_interface\<lparr>process := Some failed_process\<rparr>) = Inl NotEstimated \<and>
   display_results (example_interface\<lparr>process := Some failed_process\<rparr>) = Inl NotEstimated"
proof -
  have 1: "returncode failed_process \<noteq> 0" by (simp add: failed_process_def)
  have 2: "\<not> u_estimated example_interface" by (simp add: example_interface_def)
  show ?thesis
    using failed_run [OF 1 2, of decimal_float "[]"] 2
    by (simp add: failed_process_def)
qed

section \<open>Properties of the synthetic model\<close>

lemma update_new: "k \<notin> fst ` set d \<Longrightarrow> AList.update k v d = d @ [(k, v)]"
  by (induction d) auto

lemma fold_update_distinct:
  "distinct (map fst (d @ ps)) \<Longrightarrow> fold (\<lambda>(k, v) d. AList.update k v d) ps d = d @ ps"
proof (induction ps arbitrary: d)
  case Nil
  then show ?case by simp
next
  case (Cons p ps)
  obtain k v where p: "p = (k, v)" by (cases p)
  have "k \<notin> fst ` set d" using Cons.prems p by auto
  then have u: "AList.update k v d = d @ [(k, v)]" by (rule update_new)
  have "distinct (map fst ((d @ [(k, v)]) @ ps))" using Cons.prems p by simp
  from Cons.IH [OF this] show ?case by (simp add: p u)
qed

lemma dict_of_distinct_keys: "distinct (map fst ps) \<Longrightarrow> dict_of ps = ps"
  using fold_update_distinct [of "[]" ps] by (simp add: dict_of_def)

lemma map_enumerate_upt:
  "map (\<lambda>(number, x). g number x) (enumerate 0 (map f [1..<Suc n])) =
     map (\<lambda>k. g (k - 1) (f k)) [1..<Suc n]"
  by (rule nth_equalityI) (simp_all add: nth_enumerate_eq del: upt_Suc)

lemma butlast_alternatives: "butlast (map f [1..<Suc n]) = map f [1..<n]"
  by (simp add: map_butlast [symmetric])

lemma map_of_tokens:
  "inj f \<Longrightarrow> map_of (map (\<lambda>k. (f k, g k)) ks) (f k) = (if k \<in> set ks then Some (g k) else None)"
  by (induction ks) (auto simp: inj_def)

lemma inj_token: "inj (\<lambda>k. l @ str_nat k)"
  by (auto simp: inj_def dest: str_nat_inj)

lemma variable_columns_eq:
  assumes "distinct alts"
  shows "distinct (map fst variables @ map key ns) \<Longrightarrow>
     (\<And>n. key n = ''variable'' @ str_nat n) \<Longrightarrow>
     (\<And>n. cols n = map (\<lambda>alternative. (alternative, alternative @ ''_variable'' @ str_nat n)) alts) \<Longrightarrow>
     variable_columns alts ns variables = variables @ map (\<lambda>n. (key n, cols n)) ns"
proof (induction ns arbitrary: variables)
  case Nil
  then show ?case by simp
next
  case (Cons n ns)
  have cols: "dict_of (map (\<lambda>alternative. (alternative, alternative @ ''_variable'' @ str_nat n)) alts)
      = cols n"
    unfolding Cons.prems(3) using assms by (intro dict_of_distinct_keys) (simp add: comp_def)
  have new: "key n \<notin> fst ` set variables" using Cons.prems(1) by auto
  have "distinct (map fst (variables @ [(key n, cols n)]) @ map key ns)"
    using Cons.prems(1) by auto
  from Cons.IH [OF this Cons.prems(2,3)]
  have IH: "variable_columns alts ns (variables @ [(key n, cols n)]) =
      variables @ map (\<lambda>n. (key n, cols n)) (n # ns)"
    by simp
  have "variable_columns alts (n # ns) variables =
      variable_columns alts ns (AList.update (key n) (cols n) variables)"
    unfolding variable_columns.simps cols Cons.prems(2) ..
  then show ?case by (simp only: update_new [OF new] IH)
qed

lemma intercept_specifications_eq:
  assumes "\<And>a. a \<in> set as \<Longrightarrow> map_of ints a = Some (c a)"
    and "distinct (map fst spec @ as)"
  shows "intercept_specifications ints lin as spec =
     Inr (spec @ map (\<lambda>a. (a, c a @ '' + '' @ lin)) as)"
  using assms
proof (induction as arbitrary: spec)
  case Nil
  then show ?case by simp
next
  case (Cons a as)
  have new: "a \<notin> fst ` set spec" using Cons.prems(2) by auto
  have "distinct (map fst (spec @ [(a, c a @ '' + '' @ lin)]) @ as)" using Cons.prems(2) by auto
  from Cons.IH [OF _ this] Cons.prems(1) show ?case
    by (simp add: dict_get_def update_new [OF new])
qed


lemma py_index_last: "xs \<noteq> [] \<Longrightarrow> py_index xs (- 1) = Inr (last xs)"
proof -
  assume ne: "xs \<noteq> []"
  then have "nat (int (length xs) + - 1) = length xs - 1" by (cases xs) auto
  moreover have "Suc 0 \<le> length xs" using ne by (cases xs) auto
  ultimately show ?thesis using ne by (simp add: py_index_def last_conv_nth)
qed

lemma takeWhile_digits:
  assumes "l \<noteq> []" and "\<not> isdigit (hd l)"
  shows "takeWhile isdigit (str_nat k @ l @ r) = str_nat k"
proof -
  have "takeWhile isdigit (l @ r) = []" using assms by (cases l) auto
  then show ?thesis using str_nat_digits [of k] by (simp add: takeWhile_append2)
qed

lemma column_inj:
  assumes eq: "str_nat k @ l2 @ str_nat n = str_nat k' @ l2 @ str_nat n'"
    and "l2 \<noteq> []" and "\<not> isdigit (hd l2)"
  shows "k = k' \<and> n = n'"
proof -
  from eq have "takeWhile isdigit (str_nat k @ l2 @ str_nat n) =
      takeWhile isdigit (str_nat k' @ l2 @ str_nat n')" by simp
  then have k: "str_nat k = str_nat k'"
    by (simp only: takeWhile_digits [OF assms(2,3)])
  with eq have "str_nat n = str_nat n'" by simp
  with k show ?thesis by (auto dest: str_nat_inj)
qed

lemma distinct_columns:
  assumes "distinct ks" and "distinct ns" and "l2 \<noteq> []" and "\<not> isdigit (hd l2)"
  shows "distinct (concat (map (\<lambda>n. map (\<lambda>k. (l1 @ str_nat k) @ l2 @ str_nat n) ks) ns))"
proof -
  have "concat (map (\<lambda>n. map (\<lambda>k. (l1 @ str_nat k) @ l2 @ str_nat n) ks) ns) =
      map (\<lambda>(n, k). (l1 @ str_nat k) @ l2 @ str_nat n) (List.product ns ks)"
    by (simp add: product_concat_map map_concat comp_def)
  moreover have "inj_on (\<lambda>(n, k). (l1 @ str_nat k) @ l2 @ str_nat n) (set (List.product ns ks))"
    by (rule inj_onI) (auto dest: column_inj [OF _ assms(3,4)])
  ultimately show ?thesis
    using assms(1,2) by (simp add: distinct_map distinct_product)
qed

text \<open>
  Claim C9. For positive numbers \<open>A\<close> of alternatives and \<open>V\<close> of variables,
  \<^verbatim>\<open>synthetic_model\<close> returns the model with the alternatives \<open>alternative1, ...,
  alternativeA\<close>, the availability column \<open>availabilityk\<close> for the k-th alternative, the
  alternative-dependent variables \<open>variable1, ..., variableV\<close>, the n-th of which maps
  the k-th alternative to the column \<open>alternativek_variablen\<close> (all these columns are
  different), the parameters \<open>parameter1, ..., parameterV\<close>, and the intercept \<open>ck\<close> for
  every alternative but the last. The utility of an alternative is its intercept, if
  it has one, plus \<open>parameter1*variable1 + ... + parameterV*variableV\<close>.
\<close>

theorem synthetic_model_structure:
  assumes "0 < A" and "0 < V"
  shows "synthetic_model ttl A V =
     Inr \<lparr> arg_title = ttl,
           arg_alternatives = map (\<lambda>k. ''alternative'' @ str_nat k) [1..<Suc A],
           arg_choice_column = ''choice'',
           arg_availability =
             map (\<lambda>k. (''alternative'' @ str_nat k, ''availability'' @ str_nat k)) [1..<Suc A],
           arg_alternative_independent_variables = [],
           arg_alternative_dependent_variables =
             map (\<lambda>n. (''variable'' @ str_nat n,
                        map (\<lambda>k. (''alternative'' @ str_nat k,
                                   (''alternative'' @ str_nat k) @ ''_variable'' @ str_nat n))
                          [1..<Suc A]))
               [1..<Suc V],
           arg_intercepts = map (\<lambda>k. (''alternative'' @ str_nat k, ''c'' @ str_nat k)) [1..<A],
           arg_parameters = map (\<lambda>n. ''parameter'' @ str_nat n) [1..<Suc V],
           arg_specification =
             map (\<lambda>k. (''alternative'' @ str_nat k,
                        (''c'' @ str_nat k) @ '' + '' @
                        join '' + '' (map (\<lambda>n. (''parameter'' @ str_nat n) @ ''*'' @
                                                (''variable'' @ str_nat n)) [1..<Suc V])))
               [1..<A] @
             [(''alternative'' @ str_nat A,
               join '' + '' (map (\<lambda>n. (''parameter'' @ str_nat n) @ ''*'' @
                                       (''variable'' @ str_nat n)) [1..<Suc V]))] \<rparr> \<and>
   distinct (concat (map (\<lambda>n. map (\<lambda>k. (''alternative'' @ str_nat k) @ ''_variable'' @ str_nat n)
     [1..<Suc A]) [1..<Suc V]))"
proof -
  define alt where "alt = (\<lambda>k. ''alternative'' @ str_nat k)"
  define alts where "alts = map alt [1..<Suc A]"
  define key where "key = (\<lambda>n. ''variable'' @ str_nat n)"
  define cols where
    "cols = (\<lambda>n. map (\<lambda>alternative. (alternative, alternative @ ''_variable'' @ str_nat n)) alts)"
  define par where "par = (\<lambda>n. ''parameter'' @ str_nat n)"
  define lin where "lin = join '' + '' (map (\<lambda>n. par n @ ''*'' @ key n) [1..<Suc V])"
  define ic where "ic = (\<lambda>k. ''c'' @ str_nat k)"
  define ints where "ints = map (\<lambda>k. (alt k, ic k)) [1..<A]"
  have inj_alt: "inj alt" unfolding alt_def by (rule inj_token)
  have inj_key: "inj key" unfolding key_def by (rule inj_token)
  have a0: "map (\<lambda>number. ''alternative'' @ str_nat number) [1..<A + 1] = alts"
    by (simp add: alts_def alt_def del: upt_Suc)
  have d_alts: "distinct alts"
    by (simp add: alts_def distinct_map inj_on_subset [OF inj_alt] del: upt_Suc)
  have bl: "butlast alts = map alt [1..<A]"
    unfolding alts_def by (rule butlast_alternatives)
  have ne: "alts \<noteq> []" using assms(1) by (simp add: alts_def)
  have last_alt: "last alts = alt A"
    using assms(1) by (simp add: alts_def)
  have avail: "dict_of (map (\<lambda>(number, alternative).
      (alternative, ''availability'' @ str_nat (number + 1))) (enumerate 0 alts)) =
      map (\<lambda>k. (alt k, ''availability'' @ str_nat k)) [1..<Suc A]"
  proof -
    have "map (\<lambda>(number, alternative).
        (alternative, ''availability'' @ str_nat (number + 1))) (enumerate 0 alts) =
        map (\<lambda>k. (alt k, ''availability'' @ str_nat (k - 1 + 1))) [1..<Suc A]"
      unfolding alts_def by (rule map_enumerate_upt)
    also have "\<dots> = map (\<lambda>k. (alt k, ''availability'' @ str_nat k)) [1..<Suc A]"
      by (rule map_cong) (simp_all del: upt_Suc)
    finally have eq: "map (\<lambda>(number, alternative).
        (alternative, ''availability'' @ str_nat (number + 1))) (enumerate 0 alts) =
        map (\<lambda>k. (alt k, ''availability'' @ str_nat k)) [1..<Suc A]" .
    have "distinct (map fst (map (\<lambda>k. (alt k, ''availability'' @ str_nat k)) [1..<Suc A]))"
      using d_alts by (simp add: alts_def comp_def del: upt_Suc)
    then show ?thesis unfolding eq by (rule dict_of_distinct_keys)
  qed
  have vars: "variable_columns alts [1..<V + 1] [] = map (\<lambda>n. (key n, cols n)) [1..<Suc V]"
  proof -
    have "distinct (map fst [] @ map key [1..<Suc V])"
      by (simp add: distinct_map inj_on_subset [OF inj_key] del: upt_Suc)
    from variable_columns_eq [OF d_alts this, of cols]
    show ?thesis by (simp add: key_def cols_def del: upt_Suc)
  qed
  have keys: "dict_keys (map (\<lambda>n. (key n, cols n)) [1..<Suc V]) = map key [1..<Suc V]"
    by (simp add: dict_keys_def comp_def del: upt_Suc)
  have ints: "dict_of (map (\<lambda>(number, alternative).
      (alternative, ''c'' @ str_nat (number + 1))) (enumerate 0 (butlast alts))) = ints"
  proof -
    obtain A' where A: "A = Suc A'" using assms(1) by (cases A) auto
    have "map (\<lambda>(number, alternative).
        (alternative, ''c'' @ str_nat (number + 1))) (enumerate 0 (map alt [1..<Suc A'])) =
        map (\<lambda>k. (alt k, ''c'' @ str_nat (k - 1 + 1))) [1..<Suc A']"
      by (rule map_enumerate_upt)
    also have "\<dots> = map (\<lambda>k. (alt k, ic k)) [1..<Suc A']"
      by (rule map_cong) (simp_all add: ic_def del: upt_Suc)
    finally have eq: "map (\<lambda>(number, alternative).
        (alternative, ''c'' @ str_nat (number + 1))) (enumerate 0 (butlast alts)) = ints"
      by (simp only: bl A ints_def)
    have "distinct (map fst ints)"
      by (simp add: ints_def comp_def distinct_map inj_on_subset [OF inj_alt])
    then show ?thesis unfolding eq by (rule dict_of_distinct_keys)
  qed
  have params: "map (\<lambda>number. ''parameter'' @ str_nat number) [1..<V + 1] = map par [1..<Suc V]"
    by (simp add: par_def del: upt_Suc)
  have products: "join '' + '' (map (\<lambda>(p, v). join ''*'' [p, v])
      (zip (map par [1..<Suc V]) (map key [1..<Suc V]))) = lin"
    by (simp add: lin_def zip_map_map zip_same_conv_map comp_def del: upt_Suc)
  have spec: "intercept_specifications ints lin (butlast alts) [] =
      Inr (map (\<lambda>k. (alt k, ic k @ '' + '' @ lin)) [1..<A])"
  proof -
    define c where "c = (\<lambda>a. the (map_of ints a))"
    have c: "c (alt k) = ic k" if "k \<in> set [1..<A]" for k
      using that map_of_tokens [OF inj_alt, of ic "[1..<A]" k] by (simp add: c_def ints_def)
    have 1: "map_of ints a = Some (c a)" if "a \<in> set (map alt [1..<A])" for a
    proof -
      from that obtain k where k: "a = alt k" "k \<in> set [1..<A]" by auto
      then show ?thesis
        using map_of_tokens [OF inj_alt, of ic "[1..<A]" k] c [OF k(2)]
        by (simp add: ints_def)
    qed
    have 2: "distinct (map fst [] @ map alt [1..<A])"
      by (simp add: distinct_map inj_on_subset [OF inj_alt])
    have "intercept_specifications ints lin (map alt [1..<A]) [] =
        Inr ([] @ map (\<lambda>a. (a, c a @ '' + '' @ lin)) (map alt [1..<A]))"
      using 1 2 by (rule intercept_specifications_eq)
    also have "map (\<lambda>a. (a, c a @ '' + '' @ lin)) (map alt [1..<A]) =
        map (\<lambda>k. (alt k, ic k @ '' + '' @ lin)) [1..<A]"
      unfolding map_map comp_def by (rule map_cong) (simp_all add: c)
    finally show ?thesis by (simp only: bl append_Nil)
  qed
  have upd: "AList.update (alt A) lin (map (\<lambda>k. (alt k, ic k @ '' + '' @ lin)) [1..<A]) =
      map (\<lambda>k. (alt k, ic k @ '' + '' @ lin)) [1..<A] @ [(alt A, lin)]"
  proof (rule update_new)
    show "alt A \<notin> fst ` set (map (\<lambda>k. (alt k, ic k @ '' + '' @ lin)) [1..<A])"
      using inj_alt by (force simp: inj_def)
  qed
  have "synthetic_model ttl A V =
     Inr \<lparr> arg_title = ttl, arg_alternatives = alts, arg_choice_column = ''choice'',
           arg_availability = map (\<lambda>k. (alt k, ''availability'' @ str_nat k)) [1..<Suc A],
           arg_alternative_independent_variables = [],
           arg_alternative_dependent_variables = map (\<lambda>n. (key n, cols n)) [1..<Suc V],
           arg_intercepts = ints,
           arg_parameters = map par [1..<Suc V],
           arg_specification = map (\<lambda>k. (alt k, ic k @ '' + '' @ lin)) [1..<A] @ [(alt A, lin)] \<rparr>"
    unfolding synthetic_model_def Let_def a0 avail vars keys ints params products spec
      py_index_last [OF ne] last_alt
    using upd by simp
  moreover have "distinct (concat (map (\<lambda>n. map (\<lambda>k.
      (''alternative'' @ str_nat k) @ ''_variable'' @ str_nat n) [1..<Suc A]) [1..<Suc V]))"
    by (rule distinct_columns) (simp_all add: isdigit_def)
  ultimately show ?thesis
    unfolding alts_def alt_def key_def cols_def par_def lin_def ic_def ints_def
    by (simp add: comp_def del: upt_Suc)
qed

theorem synthetic_model_structure_witness:
  "synthetic_model ''Synthetic'' 3 2 =
     Inr \<lparr> arg_title = ''Synthetic'',
           arg_alternatives = [''alternative1'', ''alternative2'', ''alternative3''],
           arg_choice_column = ''choice'',
           arg_availability =
             [(''alternative1'', ''availability1''), (''alternative2'', ''availability2''),
              (''alternative3'', ''availability3'')],
           arg_alternative_independent_variables = [],
           arg_alternative_dependent_variables =
             [(''variable1'',
               [(''alternative1'', ''alternative1_variable1''),
                (''alternative2'', ''alternative2_variable1''),
                (''alternative3'', ''alternative3_variable1'')]),
              (''variable2'',
               [(''alternative1'', ''alternative1_variable2''),
                (''alternative2'', ''alternative2_variable2''),
                (''alternative3'', ''alternative3_variable2'')])],
           arg_intercepts = [(''alternative1'', ''c1''), (''alternative2'', ''c2'')],
           arg_parameters = [''parameter1'', ''parameter2''],
           arg_specification =
             [(''alternative1'', ''c1 + parameter1*variable1 + parameter2*variable2''),
              (''alternative2'', ''c2 + parameter1*variable1 + parameter2*variable2''),
              (''alternative3'', ''parameter1*variable1 + parameter2*variable2'')] \<rparr> \<and>
   distinct [''alternative1_variable1'', ''alternative2_variable1'', ''alternative3_variable1'',
             ''alternative1_variable2'', ''alternative2_variable2'', ''alternative3_variable2'']"
proof -
  have s: "str_nat 1 = ''1''" "str_nat 2 = ''2''" "str_nat 3 = ''3''" "str_nat (Suc 0) = ''1''"
    by (simp_all add: str_nat.simps)
  have u: "[1..<Suc 3] = [1, 2, 3]" "[1..<Suc 2] = [1, 2]" "[1..<3] = [1, 2 :: nat]"
    by (simp_all add: upt_rec)
  show ?thesis
    using synthetic_model_structure [of 3 2 "''Synthetic''"]
    by (simp only: u) (simp add: s)
qed

section \<open>Properties of the serializer\<close>

lemma take_fitting_split:
  "take_fitting w n cs = (l, r) \<Longrightarrow> cs = l @ r \<and> (l \<noteq> [] \<longrightarrow> n + length (concat l) \<le> w)"
proof (induction cs arbitrary: n l r)
  case Nil
  then show ?case by simp
next
  case (Cons c cs)
  show ?case
  proof (cases "n + length c \<le> w")
    case True
    obtain l' r' where t: "take_fitting w (n + length c) cs = (l', r')" by (metis prod.exhaust)
    from Cons.IH [OF t] Cons.prems True t show ?thesis by (cases "l' = []") auto
  next
    case False
    with Cons.prems show ?thesis by simp
  qed
qed

lemma next_line_shape:
  assumes "next_line w b chunks = (cur, rest)" and "chunks \<noteq> []"
  shows "\<exists>d e. chunks = d @ cur @ e @ rest \<and> (length (concat cur) \<le> w \<or> length cur = 1) \<and>
     (\<forall>c \<in> set (d @ e). strip_is_empty c)"
proof -
  define chunks1 where "chunks1 = (if strip_is_empty (hd chunks) \<and> b then tl chunks else chunks)"
  obtain cl r where tf: "take_fitting w 0 chunks1 = (cl, r)" by (metis prod.exhaust)
  define cl2 where "cl2 = fst (if r \<noteq> [] \<and> length (hd r) > w then handle_long_word r cl else (cl, r))"
  define r2 where "r2 = snd (if r \<noteq> [] \<and> length (hd r) > w then handle_long_word r cl else (cl, r))"
  have res: "cur = (if cl2 \<noteq> [] \<and> strip_is_empty (last cl2) then butlast cl2 else cl2)" "rest = r2"
    using assms(1) tf
    by (auto simp: next_line_def chunks1_def cl2_def r2_def Let_def split: prod.splits if_splits)
  obtain d where d: "chunks = d @ chunks1" "\<forall>c \<in> set d. strip_is_empty c"
  proof (cases "strip_is_empty (hd chunks) \<and> b")
    case True
    then have "chunks = [hd chunks] @ chunks1" "\<forall>c \<in> set [hd chunks]. strip_is_empty c"
      using assms(2) by (simp_all add: chunks1_def)
    then show ?thesis using that by blast
  next
    case False
    then have "chunks = [] @ chunks1" by (auto simp: chunks1_def)
    then show ?thesis using that by fastforce
  qed
  from take_fitting_split [OF tf]
  have s1: "chunks1 = cl @ r" and fit: "cl \<noteq> [] \<longrightarrow> length (concat cl) \<le> w" by simp_all
  have s2: "chunks1 = cl2 @ r2" and fit2: "length (concat cl2) \<le> w \<or> length cl2 = 1"
    using s1 fit by (auto simp: cl2_def r2_def handle_long_word_def)
  obtain e where e: "cl2 = cur @ e" "\<forall>c \<in> set e. strip_is_empty c"
  proof (cases "cl2 \<noteq> [] \<and> strip_is_empty (last cl2)")
    case True
    then have "cl2 = cur @ [last cl2]" "\<forall>c \<in> set [last cl2]. strip_is_empty c"
      using res(1) by simp_all
    then show ?thesis using that by blast
  next
    case False
    then have "cl2 = cur @ []" using res(1) by auto
    then show ?thesis using that by fastforce
  qed
  have "length (concat cur) \<le> w \<or> length cur = 1"
  proof (cases "e = []")
    case True
    then show ?thesis using fit2 e(1) by simp
  next
    case False
    from fit2 show ?thesis
    proof
      assume "length (concat cl2) \<le> w"
      then show ?thesis using e(1) by simp
    next
      assume "length cl2 = 1"
      then have "cur = []" using e(1) False by (cases cur) auto
      then show ?thesis by simp
    qed
  qed
  moreover have "chunks = d @ cur @ e @ rest" using d(1) s2 e(1) res(2) by simp
  ultimately show ?thesis using d(2) e(2) by auto
qed

lemma wrap_chunks_groups:
  "\<exists>gs. wrap_chunks w lines chunks = lines @ map concat gs \<and>
     (\<forall>g \<in> set gs. g \<noteq> [] \<and> sublist g chunks \<and> (length (concat g) \<le> w \<or> length g = 1)) \<and>
     filter (\<lambda>c. \<not> strip_is_empty c) (concat gs) = filter (\<lambda>c. \<not> strip_is_empty c) chunks"
proof (induction w lines chunks rule: wrap_chunks.induct)
  case (1 w lines chunks)
  show ?case
  proof (cases "chunks = []")
    case True
    then have "wrap_chunks w lines chunks = lines @ map concat []"
      by (simp add: wrap_chunks.simps)
    then show ?thesis using True by (intro exI [of _ "[]"]) simp
  next
    case False
    obtain cur rest where nl: "next_line w (lines \<noteq> []) chunks = (cur, rest)"
      by (metis prod.exhaust)
    from next_line_shape [OF nl False] obtain d e where
      sh: "chunks = d @ cur @ e @ rest" "length (concat cur) \<le> w \<or> length cur = 1"
        "\<forall>c \<in> set (d @ e). strip_is_empty c"
      by blast
    let ?lines = "if cur \<noteq> [] then lines @ [concat cur] else lines"
    from 1 [OF False nl [symmetric] refl] obtain gs where
      gs: "wrap_chunks w ?lines rest = ?lines @ map concat gs"
        "\<forall>g \<in> set gs. g \<noteq> [] \<and> sublist g rest \<and> (length (concat g) \<le> w \<or> length g = 1)"
        "filter (\<lambda>c. \<not> strip_is_empty c) (concat gs) = filter (\<lambda>c. \<not> strip_is_empty c) rest"
      by blast
    have w: "wrap_chunks w lines chunks = wrap_chunks w ?lines rest"
      using False nl by (subst wrap_chunks.simps) simp
    have sub: "sublist g chunks" if "sublist g rest" for g
    proof -
      have "sublist rest chunks"
        using sh(1) by (metis append.assoc sublist_append_leftI)
      with that show ?thesis by (rule sublist_order.order_trans)
    qed
    have subc: "sublist cur chunks"
      using sh(1) by (metis sublist_appendI)
    have ws: "filter (\<lambda>c. \<not> strip_is_empty c) chunks =
        filter (\<lambda>c. \<not> strip_is_empty c) cur @ filter (\<lambda>c. \<not> strip_is_empty c) rest"
    proof -
      have "filter (\<lambda>c. \<not> strip_is_empty c) d = []" "filter (\<lambda>c. \<not> strip_is_empty c) e = []"
        using sh(3) by (auto simp: filter_empty_conv)
      then show ?thesis by (subst sh(1)) simp
    qed
    show ?thesis
    proof (cases "cur = []")
      case True
      then show ?thesis
        using w gs sub ws by (intro exI [of _ gs]) auto
    next
      case ne: False
      then show ?thesis
        using w gs sub subc sh(2) ws by (intro exI [of _ "cur # gs"]) auto
    qed
  qed
qed


lemma emdash_ahead_hyphen: "emdash_ahead (c # cs) \<Longrightarrow> c = CHR ''-''"
  by (auto simp: emdash_ahead_def Let_def split: if_splits)

lemma hyphen_break_hyphen: "hyphen_break b (c # cs) \<Longrightarrow> c = CHR ''-''"
  by (simp add: hyphen_break_def)

lemma word_end_boundary:
  "word_end b r \<le> length r \<and>
   (drop (word_end b r) r = [] \<or> re_whitespace (hd (drop (word_end b r) r)) \<or>
    hd (drop (word_end b r) r) = CHR ''-'' \<or>
    (0 < word_end b r \<and> r ! (word_end b r - 1) = CHR ''-''))"
proof (induction b r rule: word_end.induct)
  case (1 b)
  then show ?case by simp
next
  case (2 b c cs)
  show ?case
  proof (cases "hyphen_break b (c # cs)")
    case True
    then show ?thesis using hyphen_break_hyphen [OF True] by simp
  next
    case nh: False
    show ?thesis
    proof (cases "re_whitespace c")
      case True
      then show ?thesis using nh by simp
    next
      case nw: False
      show ?thesis
      proof (cases "word_punct_behind b \<and> emdash_ahead (c # cs)")
        case True
        then show ?thesis using nh nw emdash_ahead_hyphen [of c cs] by simp
      next
        case False
        then have w: "word_end b (c # cs) = Suc (word_end (c # b) cs)" using nh nw by auto
        from 2 [OF nh nw False] show ?thesis
          unfolding w by (cases "word_end (c # b) cs") auto
      qed
    qed
  qed
qed

lemma chunk_rest_le: "chunk_rest b c cs \<le> length cs"
  using word_end_boundary [of "c # b" cs]
  by (simp add: chunk_rest_def length_takeWhile_le)

lemma last_take_nth: "0 < k \<Longrightarrow> k \<le> length xs \<Longrightarrow> last (x # take k xs) = xs ! (k - 1)"
  by (cases k) (auto simp: last_conv_nth min_def)

lemma last_takeWhile: "P x \<Longrightarrow> P (last (x # takeWhile P xs))"
  by (cases "takeWhile P xs = []") (auto dest: set_takeWhileD last_in_set)

lemma chunk_rest_boundary:
  assumes "drop (chunk_rest b c cs) cs \<noteq> []"
  shows "re_whitespace (last (c # take (chunk_rest b c cs) cs)) \<or>
     last (c # take (chunk_rest b c cs) cs) = CHR ''-'' \<or>
     re_whitespace (hd (drop (chunk_rest b c cs) cs)) \<or>
     hd (drop (chunk_rest b c cs) cs) = CHR ''-''"
proof (cases "re_whitespace c")
  case True
  then have "take (chunk_rest b c cs) cs = takeWhile re_whitespace cs"
    by (simp add: chunk_rest_def takeWhile_eq_take [symmetric])
  then show ?thesis using last_takeWhile [of re_whitespace c cs] True by simp
next
  case nw: False
  show ?thesis
  proof (cases "word_punct_behind b \<and> emdash_ahead (c # cs)")
    case True
    then have "take (chunk_rest b c cs) cs = takeWhile (\<lambda>x. x = CHR ''-'') cs"
      using nw by (simp add: chunk_rest_def takeWhile_eq_take [symmetric])
    moreover have "c = CHR ''-''" using True emdash_ahead_hyphen by blast
    ultimately show ?thesis using last_takeWhile [of "\<lambda>x. x = CHR ''-''" c cs] by simp
  next
    case False
    then have k: "chunk_rest b c cs = word_end (c # b) cs" using nw by (auto simp: chunk_rest_def)
    from word_end_boundary [of "c # b" cs] assms show ?thesis
      unfolding k using last_take_nth [of "word_end (c # b) cs" cs c] by auto
  qed
qed

lemma split_chunks_hd:
  "split_chunks b (c # cs) \<noteq> [] \<and> hd (hd (split_chunks b (c # cs))) = c"
  by (simp add: Let_def)

lemma split_chunks_breakable: "successively breakable (split_chunks b s)"
proof (induction b s rule: split_chunks.induct)
  case (1 b)
  then show ?case by simp
next
  case (2 b c cs)
  define k where "k = chunk_rest b c cs"
  have IH: "successively breakable (split_chunks (rev (take k cs) @ c # b) (drop k cs))"
    using 2 [OF k_def] .
  show ?case
  proof (cases "drop k cs")
    case Nil
    then show ?thesis by (simp add: Let_def k_def [symmetric])
  next
    case (Cons c' cs')
    have hd: "split_chunks (rev (take k cs) @ c # b) (c' # cs') \<noteq> []"
      "hd (hd (split_chunks (rev (take k cs) @ c # b) (c' # cs'))) = c'"
      "hd (split_chunks (rev (take k cs) @ c # b) (c' # cs')) \<noteq> []"
      by (simp_all add: Let_def)
    have "breakable (c # take k cs) (hd (split_chunks (rev (take k cs) @ c # b) (c' # cs')))"
      using chunk_rest_boundary [of b c cs] Cons hd
      unfolding breakable_def k_def by auto
    then show ?thesis
      using IH Cons hd(1) by (simp add: Let_def k_def [symmetric] successively_Cons)
  qed
qed

lemma concat_split_chunks: "concat (split_chunks b s) = s"
  by (induction b s rule: split_chunks.induct) (simp_all add: Let_def)

lemma split_chunks_nonempty: "\<forall>c \<in> set (split_chunks b s). c \<noteq> []"
  by (induction b s rule: split_chunks.induct) (simp_all add: Let_def)

lemma alo_record_string_eq:
  "alo_record_string self command args = command @ concat (map (\<lambda>arg. '' '' @ abbreviate self arg) args)"
proof -
  have "fold (\<lambda>arg string. string @ '' '' @ abbreviate self arg) args acc =
      acc @ concat (map (\<lambda>arg. '' '' @ abbreviate self arg) args)" for acc
    by (induction args arbitrary: acc) simp_all
  then show ?thesis by (simp add: alo_record_string_def)
qed

lemma availability_records_eq:
  "availability_records self choices =
     (if set choices \<subseteq> fst ` set (availability (model self))
      then Inr (concat (map wrap (map (availability_record self) choices)))
      else Inl KeyError)"
proof (induction choices)
  case Nil
  then show ?case by simp
next
  case (Cons choice choices)
  show ?case
  proof (cases "map_of (availability (model self)) choice")
    case None
    then have "choice \<notin> fst ` set (availability (model self))"
      by (simp add: map_of_eq_None_iff)
    with None show ?thesis by (simp add: dict_get_def)
  next
    case (Some column)
    then have "choice \<in> fst ` set (availability (model self))"
      by (metis map_of_eq_None_iff option.distinct(1))
    moreover have "alo_record self (array_record self ''Avail'' choice) [column] =
        wrap (availability_record self choice)"
      using Some
      by (simp add: alo_record_def alo_record_string_eq array_record_def array_def
          availability_record_def)
    ultimately show ?thesis using Some Cons.IH by (simp add: dict_get_def)
  qed
qed

lemma utility_string_eq:
  "utility_string self choice =
     (if choice \<in> fst ` set (utility_specification (model self))
      then Inr (utility_expression self choice) else Inl KeyError)"
proof (cases "map_of (utility_specification (model self)) choice")
  case None
  then have "choice \<notin> fst ` set (utility_specification (model self))"
    by (simp add: map_of_eq_None_iff)
  with None show ?thesis by (simp add: utility_string_def dict_get_def)
next
  case (Some u)
  then have "choice \<in> fst ` set (utility_specification (model self))"
    by (metis map_of_eq_None_iff option.distinct(1))
  with Some show ?thesis
    by (simp add: utility_string_def dict_get_def utility_expression_def Let_def)
qed

lemma utility_records_eq:
  "utility_records self choices =
     (if set choices \<subseteq> fst ` set (utility_specification (model self))
      then Inr (concat (map wrap (map (utility_record self) choices)))
      else Inl KeyError)"
proof (induction choices)
  case Nil
  then show ?case by simp
next
  case (Cons choice choices)
  have "alo_record self (array_record self ''Util'' choice) [utility_expression self choice] =
      wrap (utility_record self choice)"
    by (simp add: alo_record_def alo_record_string_eq array_record_def array_def
        utility_record_def)
  with Cons show ?case by (simp add: utility_string_eq)
qed

lemma variable_records_eq:
  "variable_records self item = concat (map wrap (array_records self item))"
proof -
  obtain var mapping where item: "item = (var, mapping)" by (cases item)
  have "concat (map (\<lambda>(choice, column_label).
      alo_record self (array_record self var choice) [column_label]) mapping) =
      concat (map wrap (map (\<lambda>(choice, column).
          abbreviate self var @ ''('' @ abbreviate self choice @ '') = '' @
          abbreviate self column) mapping))"
    by (induction mapping)
      (auto simp: alo_record_def alo_record_string_eq array_record_def array_def)
  then show ?thesis
    by (simp add: item variable_records_def array_records_def alo_record_def
        alo_record_string_eq array_def ALO_COMMAND_ARRAY_def)
qed

lemma create_alo_file_records:
  "create_alo_file self =
     (if set (alternatives (model self)) \<subseteq> fst ` set (availability (model self)) \<and>
         set (alternatives (model self)) \<subseteq> fst ` set (utility_specification (model self))
      then Inr (concat (map wrap (alo_records self)))
      else Inl KeyError)"
proof -
  have arr: "concat (map (variable_records self) xs) =
      concat (map wrap (concat (map (array_records self) xs)))" for xs
    by (induction xs) (simp_all add: variable_records_eq)
  show ?thesis
    by (simp add: create_alo_file_def Let_def availability_records_eq utility_records_eq
        alo_records_def alo_record_def alo_record_string_eq specify_data_file_def
        specify_data_file_string_def define_alternatives_def define_alternatives_string_def
        arr alo_commands ALO_LABEL_CHOICE_COLUMN_def)
qed

lemma append_eq_split:
  "xs @ ys = zs @ ws \<Longrightarrow> length xs \<le> length zs \<Longrightarrow> \<exists>r. zs = xs @ r \<and> ys = r @ ws"
  by (fastforce simp: append_eq_append_conv2)

lemma token_in_one_chunk:
  assumes "successively breakable cs" and "\<forall>c \<in> set cs. c \<noteq> []"
    and "concat cs = u @ t @ v" and "t \<noteq> []"
    and "\<forall>x \<in> set t. \<not> re_whitespace x \<and> x \<noteq> CHR ''-''"
  shows "\<exists>cs1 c cs2 p q. cs = cs1 @ c # cs2 \<and> c = p @ t @ q \<and> u = concat cs1 @ p"
  using assms(1,2,3)
proof (induction cs arbitrary: u)
  case Nil
  then show ?case using assms(4) by simp
next
  case (Cons c cs)
  have eq: "c @ concat cs = u @ t @ v" using Cons.prems(3) by simp
  show ?case
  proof (cases "length c \<le> length u")
    case True
    from append_eq_split [OF eq True] obtain u' where u: "u = c @ u'" "concat cs = u' @ t @ v"
      by blast
    have "successively breakable cs" using Cons.prems(1) by (auto simp: successively_Cons)
    from Cons.IH [OF this _ u(2)] Cons.prems(2)
    obtain cs1 c0 cs2 p q where "cs = cs1 @ c0 # cs2" "c0 = p @ t @ q" "u' = concat cs1 @ p"
      by auto
    then have "c # cs = (c # cs1) @ c0 # cs2 \<and> c0 = p @ t @ q \<and> u = concat (c # cs1) @ p"
      using u(1) by simp
    then show ?thesis by blast
  next
    case False
    have "length u \<le> length c" using False by simp
    from append_eq_split [OF eq [symmetric] this] obtain w where
      w0: "c = u @ w" "t @ v = w @ concat cs" by blast
    then have w: "c = u @ w" "w \<noteq> []" "w @ concat cs = t @ v" using False by auto
    show ?thesis
    proof (cases "length t \<le> length w")
      case True
      from append_eq_split [OF w(3) [symmetric] True] obtain q where "w = t @ q" by blast
      then have "c # cs = [] @ c # cs \<and> c = u @ t @ q \<and> u = concat [] @ u"
        using w(1) by simp
      then show ?thesis by blast
    next
      case short: False
      have "length w \<le> length t" using short by simp
      from append_eq_split [OF w(3) this] obtain t' where
        t0: "t = w @ t'" "concat cs = t' @ v" by blast
      then have t': "t = w @ t'" "t' \<noteq> []" "concat cs = t' @ v" using short by auto
      then have ne: "cs \<noteq> []" by auto
      then have hne: "hd cs \<noteq> []" using Cons.prems(2) by (cases cs) auto
      have "hd (concat cs) = hd (hd cs)" using ne hne by (cases cs) auto
      then have h: "hd (hd cs) \<in> set t" using t' by (cases t') auto
      have l: "last c \<in> set t" using w(1,2) t'(1) by simp
      have "breakable c (hd cs)" using Cons.prems(1) ne by (auto simp: successively_Cons)
      then show ?thesis using h l assms(5) by (auto simp: breakable_def)
    qed
  qed
qed

lemma digit_not_break: "isdigit x \<Longrightarrow> \<not> re_whitespace x \<and> x \<noteq> CHR ''-''"
  by (auto simp: isdigit_def re_whitespace_def)

lemma token_no_break:
  assumes "\<forall>x \<in> set l. \<not> re_whitespace x \<and> x \<noteq> CHR ''-''"
  shows "\<forall>x \<in> set (l @ str_nat k). \<not> re_whitespace x \<and> x \<noteq> CHR ''-''"
  using assms str_nat_digits [of k] digit_not_break by auto

lemma segment_no_break:
  assumes "\<forall>x \<in> set l. \<not> re_whitespace x \<and> x \<noteq> CHR ''-''"
  shows "\<forall>t \<in> set (map (\<lambda>k. l @ str_nat k) ks).
     t \<noteq> [] \<and> (\<forall>x \<in> set t. \<not> re_whitespace x \<and> x \<noteq> CHR ''-'')"
  using token_no_break [OF assms] str_nat_not_Nil by auto

lemma abbreviations_no_break:
  "\<forall>t \<in> set (abbreviations m). t \<noteq> [] \<and> (\<forall>x \<in> set t. \<not> re_whitespace x \<and> x \<noteq> CHR ''-'')"
proof -
  have l: "\<forall>x \<in> set ''ch''. \<not> re_whitespace x \<and> x \<noteq> CHR ''-''"
    "\<forall>x \<in> set ''av''. \<not> re_whitespace x \<and> x \<noteq> CHR ''-''"
    "\<forall>x \<in> set ''v''. \<not> re_whitespace x \<and> x \<noteq> CHR ''-''"
    "\<forall>x \<in> set ''cv''. \<not> re_whitespace x \<and> x \<noteq> CHR ''-''"
    "\<forall>x \<in> set ''c''. \<not> re_whitespace x \<and> x \<noteq> CHR ''-''"
    "\<forall>x \<in> set ''prm''. \<not> re_whitespace x \<and> x \<noteq> CHR ''-''"
    by (simp_all add: re_whitespace_def)
  have alt: "\<forall>t \<in> set [''alt'']. t \<noteq> [] \<and> (\<forall>x \<in> set t. \<not> re_whitespace x \<and> x \<noteq> CHR ''-'')"
    by (simp add: re_whitespace_def)
  show ?thesis
    unfolding abbreviations_eq set_append ball_Un
    by (intro conjI segment_no_break l alt)
qed

lemma wrap_lines:
  "\<exists>gs. wrap r = map concat gs \<and>
     (\<forall>g \<in> set gs. g \<noteq> [] \<and> sublist g (split_chunks [] (munge_whitespace r)) \<and>
        (length (concat g) \<le> MAX_LINE_LENGTH \<or> length g = 1)) \<and>
     filter (\<lambda>c. \<not> strip_is_empty c) (concat gs) =
       filter (\<lambda>c. \<not> strip_is_empty c) (split_chunks [] (munge_whitespace r))"
  using wrap_chunks_groups [of MAX_LINE_LENGTH "[]" "split_chunks [] (munge_whitespace r)"]
  by (simp add: wrap_def)










text \<open>
  A record where a token stands in the place of a finished utility expression: the
  utility of the first alternative is its intercept, whose token \<^verbatim>\<open>c1\<close> is the name of a
  parameter, and the record is written with the token of that parameter.
\<close>

lemma token_named_records:
  "(case AlogitInterface_init id token_named_model example_kwargs
           :: error + unit alogit_interface of
      Inl e \<Rightarrow> None
    | Inr self \<Rightarrow> Some (alo self, utility_expression self ''car'', abbreviate self ''c1'')) =
   Some ([''$title  Commuting choice'',
          ''$estimate'',
          ''$coeff prm1 prm2 c1'',
          ''$nest root() ch1 ch2'',
          ''file (name=Commuting.csv) v1 cv1 cv2 av1 av2 household alt'',
          ''Avail(ch1) = av1'',
          ''Avail(ch2) = av2'',
          ''choice=recode(alt ch1, ch2)'',
          ''$array v2(alts)'',
          ''v2(ch1) = cv1'',
          ''v2(ch2) = cv2'',
          ''Util(ch1) = prm1'',
          ''Util(ch2) = prm2*v2(ch2)''], ''c1'', ''prm1'')"
  by code_simp

text \<open>
  Claim C6, as amended. When every role has fewer than \<open>10\<^sup>7\<close> names, every token has
  at most 10 characters. Every line of the input file is made of consecutive whole
  chunks of one record, and it has at most 77 characters unless it is one single chunk.
  Chunks end only at whitespace or next to a hyphen, so every occurrence of a token in
  a record lies inside one chunk: a token is never split.
\<close>

theorem alo_file_lines:
  assumes "create_alo_file self = Inr lines"
    and "length (alternatives (model self)) < 10000000"
    and "length (dict_values (availability (model self))) < 10000000"
    and "length (all_variables (model self)) < 10000000"
    and "length (alternative_dependent_variable_fields (model self)) < 10000000"
    and "length (dict_values (intercepts (model self))) < 10000000"
    and "length (parameters (model self)) < 10000000"
  shows "(\<forall>t \<in> set (abbreviations (model self)). length t \<le> MAX_CHARACTER_LENGTH) \<and>
     (\<forall>l \<in> set lines. \<exists>r \<in> set (alo_records self). \<exists>g.
        g \<noteq> [] \<and> sublist g (split_chunks [] (munge_whitespace r)) \<and> l = concat g \<and>
        (length l \<le> MAX_LINE_LENGTH \<or> length g = 1)) \<and>
     (\<forall>t \<in> set (abbreviations (model self)). \<forall>r u v.
        munge_whitespace r = u @ t @ v \<longrightarrow>
        (\<exists>cs1 c cs2 p q. split_chunks [] (munge_whitespace r) = cs1 @ c # cs2 \<and>
           c = p @ t @ q \<and> u = concat cs1 @ p))"
proof (intro conjI)
  show "\<forall>t \<in> set (abbreviations (model self)). length t \<le> MAX_CHARACTER_LENGTH"
    using assms(2-7) by (rule token_lengths)
next
  have lines: "lines = concat (map wrap (alo_records self))"
    using assms(1) by (simp add: create_alo_file_records split: if_splits)
  show "\<forall>l \<in> set lines. \<exists>r \<in> set (alo_records self). \<exists>g.
        g \<noteq> [] \<and> sublist g (split_chunks [] (munge_whitespace r)) \<and> l = concat g \<and>
        (length l \<le> MAX_LINE_LENGTH \<or> length g = 1)"
  proof
    fix l assume "l \<in> set lines"
    then obtain r where r: "r \<in> set (alo_records self)" "l \<in> set (wrap r)"
      unfolding lines by auto
    from wrap_lines [of r] obtain gs where
      gs: "wrap r = map concat gs"
        "\<forall>g \<in> set gs. g \<noteq> [] \<and> sublist g (split_chunks [] (munge_whitespace r)) \<and>
          (length (concat g) \<le> MAX_LINE_LENGTH \<or> length g = 1)"
      by blast
    from r(2) gs(1) obtain g where "g \<in> set gs" "l = concat g" by auto
    with gs(2) r(1) show "\<exists>r \<in> set (alo_records self). \<exists>g.
        g \<noteq> [] \<and> sublist g (split_chunks [] (munge_whitespace r)) \<and> l = concat g \<and>
        (length l \<le> MAX_LINE_LENGTH \<or> length g = 1)"
      by blast
  qed
next
  show "\<forall>t \<in> set (abbreviations (model self)). \<forall>r u v.
        munge_whitespace r = u @ t @ v \<longrightarrow>
        (\<exists>cs1 c cs2 p q. split_chunks [] (munge_whitespace r) = cs1 @ c # cs2 \<and>
           c = p @ t @ q \<and> u = concat cs1 @ p)"
  proof (intro ballI allI impI)
    fix t r u v
    assume t: "t \<in> set (abbreviations (model self))" and eq: "munge_whitespace r = u @ t @ v"
    from abbreviations_no_break t have nb: "t \<noteq> []"
      "\<forall>x \<in> set t. \<not> re_whitespace x \<and> x \<noteq> CHR ''-''" by blast+
    have "concat (split_chunks [] (munge_whitespace r)) = u @ t @ v"
      using eq by (simp add: concat_split_chunks)
    from token_in_one_chunk [OF split_chunks_breakable split_chunks_nonempty this nb]
    show "\<exists>cs1 c cs2 p q. split_chunks [] (munge_whitespace r) = cs1 @ c # cs2 \<and>
           c = p @ t @ q \<and> u = concat cs1 @ p" .
  qed
qed

theorem alo_file_lines_witness:
  "length ''prm2'' \<le> MAX_CHARACTER_LENGTH \<and>
   (\<exists>r \<in> set (alo_records example_interface). \<exists>g.
      g \<noteq> [] \<and> sublist g (split_chunks [] (munge_whitespace r)) \<and>
      ''$coeff prm1 prm2 c1'' = concat g \<and>
      (length ''$coeff prm1 prm2 c1'' \<le> MAX_LINE_LENGTH \<or> length g = 1)) \<and>
   (\<exists>cs1 c cs2 p q. split_chunks [] (munge_whitespace ''$coeff prm1 prm2 c1'') = cs1 @ c # cs2 \<and>
      c = p @ ''prm2'' @ q \<and> ''$coeff prm1 '' = concat cs1 @ p)"
proof -
  have 1: "create_alo_file example_interface = Inr (alo example_interface)" by code_simp
  have n: "length (alternatives (model example_interface)) = 2"
    "length (dict_values (availability (model example_interface))) = 2"
    "length (all_variables (model example_interface)) = 2"
    "length (alternative_dependent_variable_fields (model example_interface)) = 2"
    "length (dict_values (intercepts (model example_interface))) = 1"
    "length (parameters (model example_interface)) = 2"
    by code_simp+
  have 2: "length (alternatives (model example_interface)) < 10000000"
    "length (dict_values (availability (model example_interface))) < 10000000"
    "length (all_variables (model example_interface)) < 10000000"
    "length (alternative_dependent_variable_fields (model example_interface)) < 10000000"
    "length (dict_values (intercepts (model example_interface))) < 10000000"
    "length (parameters (model example_interface)) < 10000000"
    by (simp_all add: n)
  have 3: "''prm2'' \<in> set (abbreviations (model example_interface))" by code_simp
  have 4: "''$coeff prm1 prm2 c1'' \<in> set (alo example_interface)" by code_simp
  have 5: "munge_whitespace ''$coeff prm1 prm2 c1'' = ''$coeff prm1 '' @ ''prm2'' @ '' c1''"
    by code_simp
  note lines_facts = alo_file_lines [OF 1 2]
  note a = lines_facts [THEN conjunct1, THEN bspec, OF 3]
  note b = lines_facts [THEN conjunct2, THEN conjunct1, THEN bspec, OF 4]
  note c = lines_facts [THEN conjunct2, THEN conjunct2, THEN bspec, OF 3, THEN spec, THEN spec,
    THEN spec, THEN mp, OF 5]
  show ?thesis by (intro conjI a b c)
qed

text \<open>
  The claim as first stated fails for a long path of the data file: the path cannot be
  broken, and its line has 91 characters.
\<close>

theorem alo_file_lines_counterexample:
  "(case (AlogitInterface_init id example_model long_path_kwargs
       :: error + (int \<times> nat) alogit_interface) of
      Inl e \<Rightarrow> False
    | Inr self \<Rightarrow>
        alo self ! 5 =
          ''(name=/home/analyst/projects/transport_models/commuting_choice/estimation/observations.csv)'' \<and>
        length (alo self ! 5) = 91 \<and> \<not> length (alo self ! 5) \<le> MAX_LINE_LENGTH)"
  by code_simp

section \<open>Construction of an interface\<close>





end
